theory Spec2Isabelle
  imports Complex_Main "HOL-Library.Word"
begin

section \<open>Data model of the path finder\<close>

text \<open>
  The C program under \<^verbatim>\<open>sample_project/c\<close> builds a graph from a fixed grid
  (\<^verbatim>\<open>init_stops\<close>, \<^verbatim>\<open>init_routes\<close> in \<^verbatim>\<open>pathfinding.c\<close>) and hands it to
  \<^verbatim>\<open>find_path\<close> from \<^verbatim>\<open>main\<close>.

  Conventions of the embedding.
  \<^item> C \<^verbatim>\<open>int\<close> values are HOL integers: every counter is bounded by the 64 interior
    cells and their 512 neighbour pairs, so no 32-bit arithmetic wraps.
  \<^item> C \<^verbatim>\<open>double\<close> values are HOL reals; the coordinates stored in them are small
    integers. \<^verbatim>\<open>pow(x, 2)\<close> is \<open>x\<^sup>2\<close> and \<^verbatim>\<open>sqrt\<close> is the real square root.
  \<^item> A heap block is a list; the null pointer is the empty block. A field that the code
    never assigns in a freshly allocated element is \<open>None\<close>.
  \<^item> The struct fields are prefixed (\<open>stop_g\<close> for \<^verbatim>\<open>g\<close>, \<open>route_x\<close> for \<^verbatim>\<open>x\<close>),
    since the C names are single letters or the Isar keyword \<^verbatim>\<open>from\<close>.
\<close>

definition MAP_SIZE_ROWS :: int where
  "MAP_SIZE_ROWS = 10"

definition MAP_SIZE_COLS :: int where
  "MAP_SIZE_COLS = 10"

text \<open>The largest finite double of \<^verbatim>\<open>float.h\<close>.\<close>

definition DBL_MAX :: real where
  "DBL_MAX = (2 ^ 53 - 1) * 2 ^ 971"

record stop =
  stop_col :: real
  stop_row :: real
  stop_n :: "int list"
  stop_n_len :: int
  stop_f :: "real option"
  stop_g :: real
  stop_h :: "real option"
  stop_from :: int

record route =
  route_x :: int
  route_y :: int
  route_d :: real

text \<open>
  \<^verbatim>\<open>char map[10][10]\<close>: a cell is open when its byte is zero (\<^verbatim>\<open>!map[i][j]\<close>).
  \<^verbatim>\<open>int ind[10][10]\<close>: the node index of a cell. Both are defined outside the files
  at hand, so their initial contents are parameters of the model.
\<close>

type_synonym grid = "int \<Rightarrow> int \<Rightarrow> 8 word"

type_synonym lookup = "int \<Rightarrow> int \<Rightarrow> int"

text \<open>
  The variables of \<^verbatim>\<open>main\<close> that the two builders work on through pointers, the
  global \<^verbatim>\<open>ind\<close>, and the number of \<^verbatim>\<open>realloc\<close> calls made so far.
\<close>

record world =
  stops :: "stop list"
  s_len :: int
  routes :: "route list"
  r_len :: int
  ind :: lookup
  allocs :: nat

text \<open>
  What stops the C program short of a normal return. Neither builder tests the result
  of \<^verbatim>\<open>realloc\<close>: a null result is stored and written through in the next
  statement (\<open>Null_Deref\<close>). \<open>Out_Of_Range\<close> is an access to a table outside its
  allocated elements. Both are undefined behaviour of the C program, not values it
  returns. The last two belong to the search only: \<open>Uninitialised\<close> is a read of a
  field that was never assigned, \<open>Step_Limit\<close> a loop of the search that has not ended
  within the number of steps the model allows it.
\<close>

datatype error = Null_Deref | Out_Of_Range | Uninitialised | Step_Limit

text \<open>
  The allocator: \<open>heap k\<close> tells whether the \<open>k\<close>-th call of \<^verbatim>\<open>realloc\<close> (counted
  from 0) returns a block.
\<close>

type_synonym heap = "nat \<Rightarrow> bool"

section \<open>Loops\<close>

text \<open>A \<^verbatim>\<open>for\<close> loop over the values \<open>xs\<close> of its counter; an error ends it.\<close>

primrec for_each :: "'a list \<Rightarrow> ('a \<Rightarrow> 's \<Rightarrow> error + 's) \<Rightarrow> 's \<Rightarrow> error + 's" where
  "for_each [] body s = Inr s"
| "for_each (a # as) body s =
     (case body a s of Inl e \<Rightarrow> Inl e | Inr s' \<Rightarrow> for_each as body s')"

section \<open>\<^verbatim>\<open>init_stops\<close>\<close>

text \<open>The element written at lines 17 to 23: \<^verbatim>\<open>f\<close> and \<^verbatim>\<open>h\<close> are left as allocated.\<close>

definition new_stop :: "int \<Rightarrow> int \<Rightarrow> stop" where
  "new_stop i j =
     \<lparr>stop_col = of_int j, stop_row = of_int i, stop_n = [], stop_n_len = 0,
      stop_f = None, stop_g = DBL_MAX, stop_h = None, stop_from = - 1\<rparr>"

text \<open>
  The body of the inner loop (lines 14 to 25). The table holds \<open>s_len - 1\<close> elements
  before the call of \<^verbatim>\<open>realloc\<close>, which grows it by the one element at index \<open>t\<close>.
\<close>

definition add_stop :: "heap \<Rightarrow> grid \<Rightarrow> int \<Rightarrow> int \<Rightarrow> world \<Rightarrow> error + world" where
  "add_stop hp m i j w =
     (if m i j = 0 then
        (let w1 = w\<lparr>s_len := s_len w + 1\<rparr> in
         if hp (allocs w1) then
           (let t = s_len w1 - 1 in
            Inr (w1\<lparr>allocs := Suc (allocs w1),
                    stops := stops w1 @ [new_stop i j],
                    ind := (ind w1)(i := (ind w1 i)(j := t))\<rparr>))
         else Inl Null_Deref)
      else Inr w)"

text \<open>Reading element \<open>i\<close> of a table.\<close>

definition in_range :: "'a list \<Rightarrow> int \<Rightarrow> bool" where
  "in_range xs i \<longleftrightarrow> 0 \<le> i \<and> i < int (length xs)"

definition euclid :: "stop \<Rightarrow> stop \<Rightarrow> real" where
  "euclid a b = sqrt ((stop_row a - stop_row b)\<^sup>2 + (stop_col a - stop_col b)\<^sup>2)"

text \<open>The body of the heuristics loop (lines 32 and 33).\<close>

definition set_h :: "int \<Rightarrow> int \<Rightarrow> world \<Rightarrow> error + world" where
  "set_h e i w =
     (if in_range (stops w) e \<and> in_range (stops w) i then
        Inr (w\<lparr>stops := (stops w)
                  [nat i := (stops w ! nat i)
                     \<lparr>stop_h := Some (euclid (stops w ! nat e) (stops w ! nat i))\<rparr>]\<rparr>)
      else Inl Out_Of_Range)"

definition init_stops :: "heap \<Rightarrow> grid \<Rightarrow> world \<Rightarrow> error + world" where
  "init_stops hp m w0 =
     (case for_each [1..MAP_SIZE_ROWS - 2]
             (\<lambda>i. for_each [1..MAP_SIZE_COLS - 2] (\<lambda>j. add_stop hp m i j))
             (w0\<lparr>s_len := 0\<rparr>) of
        Inl e \<Rightarrow> Inl e
      | Inr w1 \<Rightarrow> (let e = s_len w1 - 1 in for_each [0..s_len w1 - 1] (set_h e) w1))"

section \<open>\<^verbatim>\<open>init_routes\<close>\<close>

text \<open>
  The body of the innermost loop (lines 46 to 62). The outgoing-edge list of the source
  node holds \<open>n_len - 1\<close> elements before its \<^verbatim>\<open>realloc\<close>, which grows it by one.
\<close>

definition add_route :: "heap \<Rightarrow> int \<Rightarrow> int \<Rightarrow> int \<Rightarrow> int \<Rightarrow> world \<Rightarrow> error + world" where
  "add_route hp i j k l w =
     (if k = i \<and> l = j then Inr w
      else if ind w k l \<ge> 0 then
        (let w1 = w\<lparr>r_len := r_len w + 1\<rparr> in
         if \<not> hp (allocs w1) then Inl Null_Deref
         else
           (let t = r_len w1 - 1; x = ind w1 i j; y = ind w1 k l in
            if \<not> (in_range (stops w1) x \<and> in_range (stops w1) y) then Inl Out_Of_Range
            else
              (let sx = stops w1 ! nat x; sy = stops w1 ! nat y;
                   r = \<lparr>route_x = x, route_y = y, route_d = euclid sy sx\<rparr>;
                   w2 = w1\<lparr>allocs := Suc (allocs w1), routes := routes w1 @ [r]\<rparr>;
                   sx1 = sx\<lparr>stop_n_len := stop_n_len sx + 1\<rparr>
               in if \<not> hp (allocs w2) then Inl Null_Deref
                  else Inr (w2\<lparr>allocs := Suc (allocs w2),
                                stops := (stops w2)[nat x := sx1\<lparr>stop_n := stop_n sx1 @ [t]\<rparr>]\<rparr>))))
      else Inr w)"

definition init_routes :: "heap \<Rightarrow> world \<Rightarrow> error + world" where
  "init_routes hp w0 =
     for_each [1..MAP_SIZE_ROWS - 2]
       (\<lambda>i. for_each [1..MAP_SIZE_COLS - 2]
          (\<lambda>j w. if ind w i j \<ge> 0 then
                   for_each [i - 1..i + 1]
                     (\<lambda>k. for_each [j - 1..j + 1] (\<lambda>l. add_route hp i j k l)) w
                 else Inr w))
       (w0\<lparr>r_len := 0\<rparr>)"

section \<open>Graph construction as \<^verbatim>\<open>main\<close> runs it\<close>

text \<open>The variables of \<^verbatim>\<open>main\<close> at line 12, with the table \<^verbatim>\<open>ind\<close> as it was defined.\<close>

definition main_init :: "lookup \<Rightarrow> world" where
  "main_init ind0 = \<lparr>stops = [], s_len = 0, routes = [], r_len = 0, ind = ind0, allocs = 0\<rparr>"

definition build_graph :: "heap \<Rightarrow> grid \<Rightarrow> lookup \<Rightarrow> error + world" where
  "build_graph hp m ind0 =
     (case init_stops hp m (main_init ind0) of
        Inl e \<Rightarrow> Inl e
      | Inr w \<Rightarrow> init_routes hp w)"

section \<open>\<^verbatim>\<open>main\<close>\<close>

text \<open>
  What \<^verbatim>\<open>main\<close> prints: the coordinates \<open>(col, row)\<close> of the nodes of the path, in the
  order of the loop at lines 18 to 20, or the line \<^verbatim>\<open>IMPOSSIBLE\<close>.
\<close>

datatype printed = Path_Printed "(real \<times> real) list" | Impossible

text \<open>
  \<^verbatim>\<open>find_path\<close> as \<^verbatim>\<open>main\<close> sees it through its C signature
  \<^verbatim>\<open>int find_path(struct stop *stops, struct route *routes, int s_len, int *path, int *p_len)\<close>:
  it is given the two tables, \<open>s_len\<close>, the block its copy of the pointer \<^verbatim>\<open>path\<close>
  designates (\<open>None\<close> for the null pointer) and the value of \<open>*p_len\<close>; it gives back
  its return value, the node table (which it may change in place) and \<open>*p_len\<close>. The
  pointer \<^verbatim>\<open>path\<close> is passed by value: whatever the callee does with its copy, the
  variable of \<^verbatim>\<open>main\<close> keeps the value it had before the call.
\<close>

type_synonym finder =
  "stop list \<Rightarrow> route list \<Rightarrow> int \<Rightarrow> int list option \<Rightarrow> int \<Rightarrow> error + (int \<times> stop list \<times> int)"

text \<open>The body of the loop at lines 18 to 20: \<^verbatim>\<open>stops[path[i]]\<close>.\<close>

definition print_stop ::
  "int list option \<Rightarrow> stop list \<Rightarrow> int \<Rightarrow> (real \<times> real) list \<Rightarrow> error + (real \<times> real) list" where
  "print_stop path sts i out =
     (case path of
        None \<Rightarrow> Inl Null_Deref
      | Some p \<Rightarrow>
          if \<not> in_range p i then Inl Out_Of_Range
          else if \<not> in_range sts (p ! nat i) then Inl Out_Of_Range
          else Inr (out @ [(stop_col (sts ! nat (p ! nat i)), stop_row (sts ! nat (p ! nat i)))]))"

text \<open>
  Lines 15 to 23, from the result of the call on. \<^verbatim>\<open>print_map\<close> is not among the
  sources; it is taken to read its arguments only.
\<close>

definition main_report :: "int list option \<Rightarrow> error + (int \<times> stop list \<times> int) \<Rightarrow> error + printed" where
  "main_report path res =
     (case res of
        Inl e \<Rightarrow> Inl e
      | Inr (ret, sts, p_len) \<Rightarrow>
          if ret \<noteq> 0 then
            (case for_each (rev [0..p_len - 1]) (print_stop path sts) [] of
               Inl e \<Rightarrow> Inl e
             | Inr out \<Rightarrow> Inr (Path_Printed out))
          else Inr Impossible)"

text \<open>
  \<^verbatim>\<open>main\<close>, lines 7 to 23, with \<^verbatim>\<open>find_path\<close> as a parameter. The local \<^verbatim>\<open>path\<close>
  is null at line 10 and is assigned nowhere in \<^verbatim>\<open>main\<close>.
\<close>

definition main_c :: "finder \<Rightarrow> heap \<Rightarrow> grid \<Rightarrow> lookup \<Rightarrow> error + printed" where
  "main_c fp hp m ind0 =
     (case build_graph hp m ind0 of
        Inl e \<Rightarrow> Inl e
      | Inr w \<Rightarrow>
          (let path = None; p_len = 0 in
           main_report path (fp (stops w) (routes w) (s_len w) path p_len)))"

section \<open>\<^verbatim>\<open>find_path\<close>\<close>

text \<open>
  Modelled from the spec: \<^verbatim>\<open>find_path\<close> is declared in \<^verbatim>\<open>pathfinding.h\<close> and called
  from \<^verbatim>\<open>main\<close>, but its definition is not among the sources. The definitions of this
  section follow section 4.2 of the specification (A* search engine): the state of a
  search is the node table, whose fields \<open>g\<close>, \<open>f\<close> and \<open>from\<close> it changes, the
  frontier and the closed set.
\<close>

record search =
  nodes :: "stop list"
  open_set :: "int list"
  closed_set :: "int list"

text \<open>
  Modelled from the spec: the priority \<open>f\<close> of a node; a node whose \<open>f\<close> was never
  assigned is unseen, and its priority is the program's infinity.
\<close>

definition f_value :: "stop list \<Rightarrow> int \<Rightarrow> real" where
  "f_value ns v = (case stop_f (ns ! nat v) of Some x \<Rightarrow> x | None \<Rightarrow> DBL_MAX)"

text \<open>
  Modelled from the spec (step 2a): the frontier node with minimum \<open>f\<close>, the lowest
  index among equals.
\<close>

definition select :: "search \<Rightarrow> int" where
  "select s = arg_min_list (f_value (nodes s)) (sort (open_set s))"

text \<open>
  Modelled from the spec (step 2d), for the edge with index \<open>t\<close> of the node \<open>u\<close> that
  is being expanded.
\<close>

definition relax :: "route list \<Rightarrow> int \<Rightarrow> int \<Rightarrow> search \<Rightarrow> error + search" where
  "relax rs u t s =
     (if \<not> in_range rs t then Inl Out_Of_Range
      else
        (let v = route_y (rs ! nat t); d = route_d (rs ! nat t) in
         if \<not> in_range (nodes s) v then Inl Out_Of_Range
         else if v \<in> set (closed_set s) then Inr s
         else
           (let g' = stop_g (nodes s ! nat u) + d in
            if g' < stop_g (nodes s ! nat v) then
              (case stop_h (nodes s ! nat v) of
                 None \<Rightarrow> Inl Uninitialised
               | Some h \<Rightarrow>
                   Inr (s\<lparr>nodes := (nodes s)
                             [nat v := (nodes s ! nat v)
                                \<lparr>stop_g := g', stop_from := u, stop_f := Some (g' + h)\<rparr>],
                          open_set := List.insert v (open_set s)\<rparr>))
            else Inr s)))"

text \<open>Modelled from the spec (steps 2c and 2d).\<close>

definition expand :: "route list \<Rightarrow> int \<Rightarrow> search \<Rightarrow> error + search" where
  "expand rs u s =
     for_each (stop_n (nodes s ! nat u)) (relax rs u)
       (s\<lparr>open_set := removeAll u (open_set s), closed_set := u # closed_set s\<rparr>)"

text \<open>
  Modelled from the spec (steps 2 and 3): the loop, which the model lets run for \<open>k\<close>
  iterations. The result is whether the goal was reached, and the state then.
\<close>

fun search_loop :: "nat \<Rightarrow> route list \<Rightarrow> int \<Rightarrow> search \<Rightarrow> error + (bool \<times> search)" where
  "search_loop 0 rs goal s = Inl Step_Limit"
| "search_loop (Suc k) rs goal s =
     (if open_set s = [] then Inr (False, s)
      else
        (let u = select s in
         if u = goal then Inr (True, s)
         else (case expand rs u s of
                 Inl e \<Rightarrow> Inl e
               | Inr s' \<Rightarrow> search_loop k rs goal s')))"

text \<open>
  Modelled from the spec (path reconstruction): from \<open>v\<close> along the \<open>from\<close> links to the
  node whose link is none (\<open>-1\<close>), each node appended; at most \<open>k\<close> nodes.
\<close>

fun trace_back :: "nat \<Rightarrow> stop list \<Rightarrow> int \<Rightarrow> error + int list" where
  "trace_back 0 ns v = Inl Step_Limit"
| "trace_back (Suc k) ns v =
     (if \<not> in_range ns v then Inl Out_Of_Range
      else if stop_from (ns ! nat v) = - 1 then Inr [v]
      else (case trace_back k ns (stop_from (ns ! nat v)) of
              Inl e \<Rightarrow> Inl e
            | Inr p \<Rightarrow> Inr (v # p)))"

text \<open>
  Modelled from the spec (contract and step 1): the search from node 0 to the last node.
  The result is success with the path, goal first, or failure with the empty path, and
  the node table as the search leaves it. Each iteration of the loop closes a node, so
  the loop is given one iteration per node and one more; a path has no more nodes than
  the table.
\<close>

definition find_path :: "stop list \<Rightarrow> route list \<Rightarrow> int \<Rightarrow> error + (bool \<times> int list \<times> stop list)" where
  "find_path sts rs n =
     (let start = 0; goal = n - 1 in
      if \<not> in_range sts start then Inl Out_Of_Range
      else
        (case stop_h (sts ! nat start) of
           None \<Rightarrow> Inl Uninitialised
         | Some h \<Rightarrow>
             (let s0 = \<lparr>nodes = sts[nat start := (sts ! nat start)\<lparr>stop_g := 0, stop_f := Some h\<rparr>],
                        open_set = [start], closed_set = []\<rparr> in
              case search_loop (Suc (length sts)) rs goal s0 of
                Inl e \<Rightarrow> Inl e
              | Inr (found, s) \<Rightarrow>
                  if found then
                    (case trace_back (length sts) (nodes s) goal of
                       Inl e \<Rightarrow> Inl e
                     | Inr p \<Rightarrow> Inr (True, p, nodes s))
                  else Inr (False, [], nodes s))))"

text \<open>
  Modelled from the spec: \<open>find_path\<close> behind the C signature. It returns 1 or 0 and sets
  \<open>*p_len\<close> to the number of nodes of the path; the sequence it builds stays with its own
  copy of the pointer \<^verbatim>\<open>path\<close>.
\<close>

definition find_path_c :: finder where
  "find_path_c sts rs n path p_len =
     (case find_path sts rs n of
        Inl e \<Rightarrow> Inl e
      | Inr (found, p, sts') \<Rightarrow>
          if found then Inr (1, sts', int (length p)) else Inr (0, sts', p_len))"

section \<open>Vocabulary of the claims\<close>

text \<open>
  The interior cells of the grid, in the order in which the loops of \<^verbatim>\<open>init_stops\<close> and
  \<^verbatim>\<open>init_routes\<close> visit them: row by row from the top, each row from left to right.
\<close>

definition interior :: "(int \<times> int) list" where
  "interior = List.product [1..MAP_SIZE_ROWS - 2] [1..MAP_SIZE_COLS - 2]"

text \<open>A cell is open when its byte in \<^verbatim>\<open>map\<close> is zero.\<close>

definition is_open :: "grid \<Rightarrow> int \<times> int \<Rightarrow> bool" where
  "is_open m c \<longleftrightarrow> m (fst c) (snd c) = 0"

text \<open>The open interior cells in row-major scan order.\<close>

definition open_cells :: "grid \<Rightarrow> (int \<times> int) list" where
  "open_cells m = filter (is_open m) interior"

text \<open>
  The table \<^verbatim>\<open>ind\<close> holds a negative value in each of its 10 x 10 entries. Neither builder
  writes one: this is a condition on the contents \<^verbatim>\<open>ind\<close> is defined with.
\<close>

definition sentinel :: "lookup \<Rightarrow> bool" where
  "sentinel ind0 \<longleftrightarrow>
     (\<forall>i\<in>{0..MAP_SIZE_ROWS - 1}. \<forall>j\<in>{0..MAP_SIZE_COLS - 1}. ind0 i j < 0)"

text \<open>
  A chain of edges of the edge table \<open>rs\<close> that leads from node \<open>a\<close> to node \<open>b\<close>, each
  edge leaving the node the one before it enters.
\<close>

fun walk :: "route list \<Rightarrow> int \<Rightarrow> route list \<Rightarrow> int \<Rightarrow> bool" where
  "walk rs a [] b \<longleftrightarrow> a = b"
| "walk rs a (e # es) b \<longleftrightarrow> e \<in> set rs \<and> route_x e = a \<and> walk rs (route_y e) es b"

text \<open>The sum of the weights of a chain of edges.\<close>

definition cost :: "route list \<Rightarrow> real" where
  "cost es = sum_list (map route_d es)"

subsection \<open>Inputs of the examples\<close>

text \<open>
  Four open cells: three that touch one another in the top left corner, one apart.
\<close>

definition sample_grid :: grid where
  "sample_grid i j = (if (i, j) \<in> {(1, 1), (1, 2), (2, 2), (4, 4)} then 0 else 1)"

text \<open>No open cell.\<close>

definition blocked_grid :: grid where
  "blocked_grid i j = 1"

text \<open>One open cell, which is start and goal.\<close>

definition one_cell_grid :: grid where
  "one_cell_grid i j = (if i = 1 \<and> j = 1 then 0 else 1)"

text \<open>Two open cells side by side.\<close>

definition two_cell_grid :: grid where
  "two_cell_grid i j = (if i = 1 \<and> (j = 1 \<or> j = 2) then 0 else 1)"

text \<open>The table \<^verbatim>\<open>ind\<close> with the value \<open>-1\<close> everywhere.\<close>

definition unset_lookup :: lookup where
  "unset_lookup i j = - 1"

text \<open>An allocator that fails at once, and one that has memory for \<open>n\<close> calls.\<close>

definition no_memory :: heap where
  "no_memory k = False"

definition memory_for :: "nat \<Rightarrow> heap" where
  "memory_for n k \<longleftrightarrow> k < n"

text \<open>A \<^verbatim>\<open>find_path\<close> that reports failure and touches nothing.\<close>

definition gives_up :: finder where
  "gives_up sts rs n path p_len = Inr (0, sts, p_len)"

section \<open>Vocabulary of the proofs\<close>

subsection \<open>Graph construction\<close>

text \<open>
  The state of \<^verbatim>\<open>init_stops\<close> after its first loop has visited the cells \<open>cs\<close>, begun in
  \<open>w0\<close>: one node per open cell among them, in order, each with its index in \<^verbatim>\<open>ind\<close>.
\<close>

definition scanned :: "grid \<Rightarrow> world \<Rightarrow> (int \<times> int) list \<Rightarrow> world \<Rightarrow> bool" where
  "scanned m w0 cs w \<longleftrightarrow>
     (let os = filter (is_open m) cs in
      stops w = map (\<lambda>c. new_stop (fst c) (snd c)) os \<and>
      s_len w = int (length os) \<and>
      routes w = routes w0 \<and> r_len w = r_len w0 \<and>
      allocs w = allocs w0 + length os \<and>
      (\<forall>t<length os. ind w (fst (os ! t)) (snd (os ! t)) = int t) \<and>
      (\<forall>c. c \<notin> set os \<longrightarrow> ind w (fst c) (snd c) = ind w0 (fst c) (snd c)))"

text \<open>A node with its heuristic set to the distance to the node \<open>goal\<close>.\<close>

definition with_h :: "stop \<Rightarrow> stop \<Rightarrow> stop" where
  "with_h goal s = s\<lparr>stop_h := Some (euclid goal s)\<rparr>"

text \<open>
  The state of \<^verbatim>\<open>init_stops\<close> after its second loop has visited the indices \<open>is\<close>.
\<close>

definition heuristics_set :: "world \<Rightarrow> int \<Rightarrow> int list \<Rightarrow> world \<Rightarrow> bool" where
  "heuristics_set w1 e is w \<longleftrightarrow>
     s_len w = s_len w1 \<and> routes w = routes w1 \<and> r_len w = r_len w1 \<and>
     ind w = ind w1 \<and> allocs w = allocs w1 \<and> length (stops w) = length (stops w1) \<and>
     (\<forall>u<length (stops w1). stops w ! u =
        (if int u \<in> set is then with_h (stops w1 ! nat e) (stops w1 ! u) else stops w1 ! u))"

text \<open>The node of the last open cell, and the node \<^verbatim>\<open>init_stops\<close> leaves for a cell.\<close>

definition goal_stop :: "grid \<Rightarrow> stop" where
  "goal_stop m = new_stop (fst (last (open_cells m))) (snd (last (open_cells m)))"

definition node_of :: "grid \<Rightarrow> int \<times> int \<Rightarrow> stop" where
  "node_of m c = with_h (goal_stop m) (new_stop (fst c) (snd c))"

text \<open>What \<^verbatim>\<open>init_stops\<close> returns, called from \<^verbatim>\<open>main\<close>.\<close>

definition stops_built :: "grid \<Rightarrow> lookup \<Rightarrow> world \<Rightarrow> bool" where
  "stops_built m ind0 w \<longleftrightarrow>
     stops w = map (node_of m) (open_cells m) \<and>
     s_len w = int (length (open_cells m)) \<and>
     routes w = [] \<and> r_len w = 0 \<and>
     allocs w = length (open_cells m) \<and>
     (\<forall>t<length (open_cells m). ind w (fst (open_cells m ! t)) (snd (open_cells m ! t)) = int t) \<and>
     (\<forall>c. c \<notin> set (open_cells m) \<longrightarrow> ind w (fst c) (snd c) = ind0 (fst c) (snd c))"

text \<open>
  The nine cells around and including \<open>c\<close>, in the order of the two inner loops of
  \<^verbatim>\<open>init_routes\<close>.
\<close>

definition nbrs :: "int \<times> int \<Rightarrow> (int \<times> int) list" where
  "nbrs c = List.product [fst c - 1..fst c + 1] [snd c - 1..snd c + 1]"

text \<open>The body of the second loop of \<^verbatim>\<open>init_routes\<close>, for the cell \<open>c\<close>.\<close>

definition visit :: "heap \<Rightarrow> int \<times> int \<Rightarrow> world \<Rightarrow> error + world" where
  "visit hp c w =
     (if ind w (fst c) (snd c) \<ge> 0 then
        for_each (nbrs c) (\<lambda>d. add_route hp (fst c) (snd c) (fst d) (snd d)) w
      else Inr w)"

text \<open>
  The pairs of a cell and a neighbour that the innermost body of \<^verbatim>\<open>init_routes\<close> is run
  with while the cells \<open>cs\<close> are visited, in order; \<open>linked\<close> are those it makes an edge for.
\<close>

definition visits :: "lookup \<Rightarrow> (int \<times> int) list \<Rightarrow> ((int \<times> int) \<times> (int \<times> int)) list" where
  "visits ix cs = concat (map (\<lambda>c. if ix (fst c) (snd c) \<ge> 0 then map (Pair c) (nbrs c) else []) cs)"

definition linked :: "lookup \<Rightarrow> (int \<times> int) \<times> (int \<times> int) \<Rightarrow> bool" where
  "linked ix p \<longleftrightarrow> snd p \<noteq> fst p \<and> ix (fst (snd p)) (snd (snd p)) \<ge> 0"

text \<open>The edge made for a pair, and the list of the edges that leave node \<open>u\<close>.\<close>

definition mk_route :: "stop list \<Rightarrow> lookup \<Rightarrow> (int \<times> int) \<times> (int \<times> int) \<Rightarrow> route" where
  "mk_route base ix p =
     \<lparr>route_x = ix (fst (fst p)) (snd (fst p)), route_y = ix (fst (snd p)) (snd (snd p)),
      route_d = euclid (base ! nat (ix (fst (snd p)) (snd (snd p))))
                       (base ! nat (ix (fst (fst p)) (snd (fst p))))\<rparr>"

definition out_edges :: "route list \<Rightarrow> nat \<Rightarrow> int list" where
  "out_edges es u = map int (filter (\<lambda>t. route_x (es ! t) = int u) [0..<length es])"

text \<open>
  The state of \<^verbatim>\<open>init_routes\<close> after the pairs \<open>ps\<close>, begun in \<open>w0\<close>.
\<close>

definition routed :: "world \<Rightarrow> ((int \<times> int) \<times> (int \<times> int)) list \<Rightarrow> world \<Rightarrow> bool" where
  "routed w0 ps w \<longleftrightarrow>
     (let es = map (mk_route (stops w0) (ind w0)) (filter (linked (ind w0)) ps) in
      routes w = es \<and> r_len w = int (length es) \<and> ind w = ind w0 \<and> s_len w = s_len w0 \<and>
      allocs w = allocs w0 + 2 * length es \<and>
      length (stops w) = length (stops w0) \<and>
      (\<forall>u<length (stops w0). stops w ! u =
          (stops w0 ! u)\<lparr>stop_n := stop_n (stops w0 ! u) @ out_edges es u,
                           stop_n_len := stop_n_len (stops w0 ! u) + int (length (out_edges es u))\<rparr>))"

text \<open>Every index that \<^verbatim>\<open>init_routes\<close> reads from \<^verbatim>\<open>ind\<close> for an edge is one of the node table.\<close>

definition indexed :: "world \<Rightarrow> (int \<times> int) list \<Rightarrow> bool" where
  "indexed w0 cs \<longleftrightarrow>
     (\<forall>p\<in>set (visits (ind w0) cs). linked (ind w0) p \<longrightarrow>
        in_range (stops w0) (ind w0 (fst (fst p)) (snd (fst p))) \<and>
        in_range (stops w0) (ind w0 (fst (snd p)) (snd (snd p))))"

text \<open>What graph construction returns.\<close>

definition graph_built :: "grid \<Rightarrow> lookup \<Rightarrow> world \<Rightarrow> bool" where
  "graph_built m ind0 w \<longleftrightarrow>
     (let os = open_cells m in
      length (stops w) = length os \<and> s_len w = int (length os) \<and>
      (\<forall>u<length os. stops w ! u =
          (node_of m (os ! u))\<lparr>stop_n := out_edges (routes w) u,
                                stop_n_len := int (length (out_edges (routes w) u))\<rparr>) \<and>
      routes w = map (mk_route (map (node_of m) os) (ind w))
                     (filter (linked (ind w)) (visits (ind w) interior)) \<and>
      r_len w = int (length (routes w)) \<and>
      (\<forall>t<length os. ind w (fst (os ! t)) (snd (os ! t)) = int t) \<and>
      (\<forall>c. c \<notin> set os \<longrightarrow> ind w (fst c) (snd c) = ind0 (fst c) (snd c)) \<and>
      allocs w = length os + 2 * length (routes w))"

text \<open>
  The table \<^verbatim>\<open>ind\<close> after \<^verbatim>\<open>init_stops\<close>: the index of its node at each open interior
  cell, the value from before everywhere else.
\<close>

definition indexes :: "grid \<Rightarrow> lookup \<Rightarrow> lookup \<Rightarrow> bool" where
  "indexes m ind0 ix \<longleftrightarrow>
     (\<forall>t<length (open_cells m). ix (fst (open_cells m ! t)) (snd (open_cells m ! t)) = int t) \<and>
     (\<forall>c. c \<notin> set (open_cells m) \<longrightarrow> ix (fst c) (snd c) = ind0 (fst c) (snd c))"

text \<open>Every call of \<^verbatim>\<open>realloc\<close> made so far has succeeded.\<close>

definition granted :: "heap \<Rightarrow> world \<Rightarrow> bool" where
  "granted hp w \<longleftrightarrow> (\<forall>k<allocs w. hp k)"

subsection \<open>The search\<close>

text \<open>The straight-line distance from node \<open>v\<close> to the last node.\<close>

definition hv :: "stop list \<Rightarrow> int \<Rightarrow> real" where
  "hv ns v = euclid (last ns) (ns ! nat v)"

text \<open>
  What the search needs of the graph: the edge lists agree with the edge table, every edge
  joins two nodes of the table and weighs their distance (at most 10 on this grid), the
  heuristic is the distance to the last node, and no search has touched \<open>g\<close> and \<open>from\<close>.
\<close>

definition metric_graph :: "stop list \<Rightarrow> route list \<Rightarrow> bool" where
  "metric_graph ns rs \<longleftrightarrow>
     length ns \<le> 64 \<and>
     (\<forall>u<length ns. stop_n (ns ! u) = out_edges rs u \<and>
        stop_h (ns ! u) = Some (euclid (last ns) (ns ! u)) \<and>
        stop_g (ns ! u) = DBL_MAX \<and> stop_from (ns ! u) = - 1) \<and>
     (\<forall>r\<in>set rs. in_range ns (route_x r) \<and> in_range ns (route_y r) \<and>
        route_d r = euclid (ns ! nat (route_y r)) (ns ! nat (route_x r)) \<and> route_d r \<le> 10)"

text \<open>The cost \<open>g\<close> and the predecessor of node \<open>v\<close>; the nodes the search has reached.\<close>

definition gv :: "search \<Rightarrow> int \<Rightarrow> real" where
  "gv s v = stop_g (nodes s ! nat v)"

definition pv :: "search \<Rightarrow> int \<Rightarrow> int" where
  "pv s v = stop_from (nodes s ! nat v)"

definition seen :: "search \<Rightarrow> int set" where
  "seen s = set (open_set s) \<union> set (closed_set s)"

text \<open>The search changes the fields \<open>g\<close>, \<open>f\<close> and \<open>from\<close> only.\<close>

definition framed :: "stop list \<Rightarrow> search \<Rightarrow> bool" where
  "framed ns s \<longleftrightarrow>
     length (nodes s) = length ns \<and>
     (\<forall>u<length ns. stop_row (nodes s ! u) = stop_row (ns ! u) \<and>
        stop_col (nodes s ! u) = stop_col (ns ! u) \<and>
        stop_n (nodes s ! u) = stop_n (ns ! u) \<and>
        stop_h (nodes s ! u) = stop_h (ns ! u))"

text \<open>Frontier and closed set hold nodes of the table and share none.\<close>

definition sets_ok :: "stop list \<Rightarrow> search \<Rightarrow> bool" where
  "sets_ok ns s \<longleftrightarrow>
     distinct (closed_set s) \<and> set (open_set s) \<inter> set (closed_set s) = {} \<and>
     (\<forall>v\<in>seen s. in_range ns v)"

text \<open>A node the search has not reached has the cost it was built with.\<close>

definition unseen_inf :: "stop list \<Rightarrow> search \<Rightarrow> bool" where
  "unseen_inf ns s \<longleftrightarrow> (\<forall>v. in_range ns v \<longrightarrow> v \<notin> seen s \<longrightarrow> gv s v = DBL_MAX)"

text \<open>On the frontier \<open>f = g + h\<close>.\<close>

definition f_ok :: "stop list \<Rightarrow> search \<Rightarrow> bool" where
  "f_ok ns s \<longleftrightarrow>
     (\<forall>v\<in>set (open_set s). stop_f (nodes s ! nat v) = Some (gv s v + hv ns v))"

text \<open>
  The \<open>from\<close> links: node 0 has none and cost 0, every other node reached has a closed
  predecessor, an edge from it, and the predecessor's cost plus the edge's weight as cost.
\<close>

definition tree :: "route list \<Rightarrow> search \<Rightarrow> bool" where
  "tree rs s \<longleftrightarrow>
     0 \<in> seen s \<and> gv s 0 = 0 \<and> pv s 0 = - 1 \<and>
     (\<forall>v\<in>seen s. v \<noteq> 0 \<longrightarrow>
        pv s v \<in> set (closed_set s) \<and>
        (\<exists>r\<in>set rs. route_x r = pv s v \<and> route_y r = v \<and> gv s v = gv s (pv s v) + route_d r))"

text \<open>The cost of a closed node is at most the cost of any chain from node 0 to it.\<close>

definition settled :: "route list \<Rightarrow> search \<Rightarrow> bool" where
  "settled rs s \<longleftrightarrow> (\<forall>u\<in>set (closed_set s). \<forall>es. walk rs 0 es u \<longrightarrow> gv s u \<le> cost es)"

text \<open>
  Every edge in \<open>P\<close> that leaves a closed node for a node not closed has been relaxed.
\<close>

definition relaxed :: "route list \<Rightarrow> (route \<Rightarrow> bool) \<Rightarrow> search \<Rightarrow> bool" where
  "relaxed rs P s \<longleftrightarrow>
     (\<forall>r\<in>set rs. route_x r \<in> set (closed_set s) \<longrightarrow> P r \<longrightarrow>
        route_y r \<notin> set (closed_set s) \<longrightarrow>
        route_y r \<in> set (open_set s) \<and> gv s (route_y r) \<le> gv s (route_x r) + route_d r)"

text \<open>Costs are not negative and grow by at most 10 with each node closed.\<close>

definition bounded :: "search \<Rightarrow> bool" where
  "bounded s \<longleftrightarrow>
     (\<forall>v\<in>set (open_set s). 0 \<le> gv s v \<and> gv s v \<le> 10 * real (length (closed_set s))) \<and>
     (\<forall>v\<in>set (closed_set s). 0 \<le> gv s v \<and> gv s v + 10 \<le> 10 * real (length (closed_set s)))"

text \<open>The invariant of the search loop.\<close>

definition search_inv :: "stop list \<Rightarrow> route list \<Rightarrow> (route \<Rightarrow> bool) \<Rightarrow> search \<Rightarrow> bool" where
  "search_inv ns rs P s \<longleftrightarrow>
     framed ns s \<and> sets_ok ns s \<and> unseen_inf ns s \<and> f_ok ns s \<and> tree rs s \<and>
     settled rs s \<and> relaxed rs P s \<and> bounded s"

text \<open>
  The predecessor of a closed node was closed before it. The path reconstruction
  therefore ends, within as many steps as there are nodes.
\<close>

definition ranked :: "search \<Rightarrow> bool" where
  "ranked s \<longleftrightarrow>
     (\<forall>xs v ys. closed_set s = xs @ v # ys \<longrightarrow> v \<noteq> 0 \<longrightarrow> pv s v \<in> set ys)"

section \<open>Rules for loops\<close>

lemma for_each_append:
  "for_each (xs @ ys) body s =
     (case for_each xs body s of Inl e \<Rightarrow> Inl e | Inr s' \<Rightarrow> for_each ys body s')"
  by (induction xs arbitrary: s) (auto split: sum.splits)

lemma for_each_map:
  "for_each (map g xs) body s = for_each xs (\<lambda>x. body (g x)) s"
  by (induction xs arbitrary: s) (auto split: sum.splits)

lemma for_each_concat:
  "for_each (concat xss) body s = for_each xss (\<lambda>xs. for_each xs body) s"
  by (induction xss arbitrary: s) (auto simp: for_each_append split: sum.splits)

lemma for_each_cong:
  "(\<And>a s. a \<in> set xs \<Longrightarrow> body a s = body' a s) \<Longrightarrow> for_each xs body s = for_each xs body' s"
  by (induction xs arbitrary: s) (auto split: sum.splits)

lemma for_each_product:
  "for_each xs (\<lambda>i. for_each ys (\<lambda>j. body i j)) s
     = for_each (List.product xs ys) (\<lambda>(i, j). body i j) s"
  by (induction xs arbitrary: s) (auto simp: for_each_append for_each_map split: sum.splits)

lemma for_each_invariant_aux:
  assumes "for_each xs body s0 = Inr s"
    and "I pre s0"
    and "\<And>ds a rest s s'. pre @ xs = ds @ a # rest \<Longrightarrow> I ds s \<Longrightarrow> body a s = Inr s'
            \<Longrightarrow> I (ds @ [a]) s'"
  shows "I (pre @ xs) s"
  using assms
proof (induction xs arbitrary: pre s0)
  case Nil
  then show ?case by simp
next
  case (Cons a xs)
  from Cons.prems(1) obtain s1 where b: "body a s0 = Inr s1" and r: "for_each xs body s1 = Inr s"
    by (auto split: sum.splits)
  have "I (pre @ [a]) s1"
    using Cons.prems(3)[of pre a xs s0 s1] Cons.prems(2) b by simp
  from Cons.IH[OF r this] Cons.prems(3) show ?case by simp
qed

lemma for_each_invariant:
  assumes "for_each xs body s0 = Inr s"
    and "I [] s0"
    and "\<And>ds a rest s s'. xs = ds @ a # rest \<Longrightarrow> I ds s \<Longrightarrow> body a s = Inr s'
            \<Longrightarrow> I (ds @ [a]) s'"
  shows "I xs s"
  using for_each_invariant_aux[of xs body s0 s I "[]"] assms by simp

lemma for_each_succeeds_aux:
  assumes "I pre s0"
    and "\<And>ds a rest s. pre @ xs = ds @ a # rest \<Longrightarrow> I ds s
            \<Longrightarrow> \<exists>s'. body a s = Inr s' \<and> I (ds @ [a]) s'"
  shows "\<exists>s. for_each xs body s0 = Inr s \<and> I (pre @ xs) s"
  using assms
proof (induction xs arbitrary: pre s0)
  case Nil
  then show ?case by simp
next
  case (Cons a xs)
  from Cons.prems(2)[of pre a xs s0] Cons.prems(1)
  obtain s1 where b: "body a s0 = Inr s1" and i: "I (pre @ [a]) s1" by auto
  from Cons.IH[of "pre @ [a]" s1, OF i] Cons.prems(2)
  obtain s where "for_each xs body s1 = Inr s" "I ((pre @ [a]) @ xs) s" by auto
  with b show ?case by simp
qed

lemma for_each_succeeds:
  assumes "I [] s0"
    and "\<And>ds a rest s. xs = ds @ a # rest \<Longrightarrow> I ds s
            \<Longrightarrow> \<exists>s'. body a s = Inr s' \<and> I (ds @ [a]) s'"
  shows "\<exists>s. for_each xs body s0 = Inr s \<and> I xs s"
  using for_each_succeeds_aux[of I "[]" s0 xs body] assms by simp

section \<open>Properties of \<^verbatim>\<open>init_stops\<close>\<close>

lemma scanned_step:
  assumes "scanned m w0 cs w" "a \<notin> set cs" "add_stop hp m (fst a) (snd a) w = Inr w'"
  shows "scanned m w0 (cs @ [a]) w'"
proof (cases "is_open m a")
  case False
  with assms show ?thesis by (auto simp: scanned_def add_stop_def is_open_def)
next
  case True
  let ?os = "filter (is_open m) cs"
  from True assms(3) have w': "w' = w\<lparr>s_len := s_len w + 1, allocs := Suc (allocs w),
       stops := stops w @ [new_stop (fst a) (snd a)],
       ind := (ind w)(fst a := (ind w (fst a))(snd a := s_len w))\<rparr>"
    by (auto simp: add_stop_def is_open_def Let_def split: if_splits)
  have notin: "a \<notin> set ?os" using assms(2) by auto
  have old: "\<And>t. t < length ?os \<Longrightarrow> ?os ! t \<noteq> a"
    using notin nth_mem by metis
  have "\<forall>t<length (?os @ [a]). ind w' (fst ((?os @ [a]) ! t)) (snd ((?os @ [a]) ! t)) = int t"
  proof (intro allI impI)
    fix t assume t: "t < length (?os @ [a])"
    show "ind w' (fst ((?os @ [a]) ! t)) (snd ((?os @ [a]) ! t)) = int t"
    proof (cases "t < length ?os")
      case True
      then have ne: "?os ! t \<noteq> a" by (rule old)
      then have "fst (?os ! t) = fst a \<Longrightarrow> snd (?os ! t) \<noteq> snd a" by (auto simp: prod_eq_iff)
      with True assms(1) show ?thesis by (auto simp: w' scanned_def Let_def nth_append)
    next
      case False
      with t have "t = length ?os" by simp
      with assms(1) show ?thesis by (simp add: w' scanned_def Let_def nth_append)
    qed
  qed
  moreover have "\<forall>c. c \<notin> set (?os @ [a]) \<longrightarrow> ind w' (fst c) (snd c) = ind w0 (fst c) (snd c)"
    using assms(1) by (auto simp: w' scanned_def Let_def prod_eq_iff)
  moreover have "filter (is_open m) (cs @ [a]) = ?os @ [a]" using True by simp
  moreover have "stops w' = map (\<lambda>c. new_stop (fst c) (snd c)) (?os @ [a])"
    "s_len w' = int (length (?os @ [a]))" "routes w' = routes w0" "r_len w' = r_len w0"
    "allocs w' = allocs w0 + length (?os @ [a])"
    using assms(1) by (simp_all add: scanned_def Let_def w')
  ultimately show ?thesis
    unfolding scanned_def Let_def by (simp only: simp_thms)
qed

lemma scanned_pass:
  assumes "for_each cs (\<lambda>c. add_stop hp m (fst c) (snd c)) w0 = Inr w"
    and "distinct cs" "stops w0 = []" "s_len w0 = 0"
  shows "scanned m w0 cs w"
proof (rule for_each_invariant[OF assms(1), where I = "scanned m w0"])
  show "scanned m w0 [] w0" using assms(3,4) by (simp add: scanned_def)
next
  fix ds a rest s s'
  assume "cs = ds @ a # rest" "scanned m w0 ds s" "add_stop hp m (fst a) (snd a) s = Inr s'"
  moreover from this(1) assms(2) have "a \<notin> set ds" by auto
  ultimately show "scanned m w0 (ds @ [a]) s'" by (auto intro: scanned_step)
qed

lemma add_stop_succeeds:
  "hp (allocs w) \<Longrightarrow> \<exists>w'. add_stop hp m i j w = Inr w'"
  by (simp add: add_stop_def Let_def)

lemma euclid_stop_h [simp]:
  "euclid (a\<lparr>stop_h := x\<rparr>) b = euclid a b"
  "euclid a (b\<lparr>stop_h := x\<rparr>) = euclid a b"
  by (simp_all add: euclid_def)

lemma euclid_with_h [simp]:
  "euclid (with_h g a) b = euclid a b"
  "euclid a (with_h g b) = euclid a b"
  by (simp_all add: with_h_def)

lemma heuristics_set_step:
  assumes "heuristics_set w1 e is w" "i \<notin> set is" "set_h e i w = Inr w'"
  shows "heuristics_set w1 e (is @ [i]) w'"
proof -
  from assms(3) have re: "in_range (stops w) e" and ri: "in_range (stops w) i"
    and w': "w' = w\<lparr>stops := (stops w)
                  [nat i := (stops w ! nat i)
                     \<lparr>stop_h := Some (euclid (stops w ! nat e) (stops w ! nat i))\<rparr>]\<rparr>"
    by (auto simp: set_h_def split: if_splits)
  from assms(1) have len: "length (stops w) = length (stops w1)"
    and rest: "s_len w = s_len w1" "routes w = routes w1" "r_len w = r_len w1"
      "ind w = ind w1" "allocs w = allocs w1"
    and pt: "\<And>u. u < length (stops w1) \<Longrightarrow> stops w ! u =
        (if int u \<in> set is then with_h (stops w1 ! nat e) (stops w1 ! u) else stops w1 ! u)"
    by (auto simp: heuristics_set_def)
  from re ri len have ne: "nat e < length (stops w1)" and ni: "nat i < length (stops w1)"
    and e0: "0 \<le> e" and i0: "0 \<le> i"
    by (auto simp: in_range_def)
  have si: "stops w ! nat i = stops w1 ! nat i"
    using pt[OF ni] assms(2) i0 by simp
  have se: "euclid (stops w ! nat e) (stops w ! nat i) = euclid (stops w1 ! nat e) (stops w1 ! nat i)"
    using pt[OF ne] si by (auto split: if_splits)
  have st': "stops w' = (stops w)[nat i := with_h (stops w1 ! nat e) (stops w1 ! nat i)]"
    using se by (simp add: w' si with_h_def)
  have "\<forall>u<length (stops w1). stops w' ! u =
        (if int u \<in> set (is @ [i]) then with_h (stops w1 ! nat e) (stops w1 ! u) else stops w1 ! u)"
  proof (intro allI impI)
    fix u assume u: "u < length (stops w1)"
    show "stops w' ! u =
        (if int u \<in> set (is @ [i]) then with_h (stops w1 ! nat e) (stops w1 ! u) else stops w1 ! u)"
    proof (cases "u = nat i")
      case True
      with u len i0 show ?thesis by (simp add: st')
    next
      case False
      with i0 have "int u \<noteq> i" by auto
      with False u pt[OF u] show ?thesis by (simp add: st')
    qed
  qed
  moreover have "s_len w' = s_len w1" "routes w' = routes w1" "r_len w' = r_len w1"
      "ind w' = ind w1" "allocs w' = allocs w1"
    using rest by (simp_all add: w')
  moreover have "length (stops w') = length (stops w1)" using len by (simp add: w')
  ultimately show ?thesis unfolding heuristics_set_def by (simp only: simp_thms)
qed

lemma heuristics_set_pass:
  assumes "for_each is (set_h e) w1 = Inr w" "distinct is"
  shows "heuristics_set w1 e is w"
proof (rule for_each_invariant[OF assms(1), where I = "heuristics_set w1 e"])
  show "heuristics_set w1 e [] w1" by (simp add: heuristics_set_def)
next
  fix ds a rest s s'
  assume "is = ds @ a # rest" "heuristics_set w1 e ds s" "set_h e a s = Inr s'"
  moreover from this(1) assms(2) have "a \<notin> set ds" by auto
  ultimately show "heuristics_set w1 e (ds @ [a]) s'" by (auto intro: heuristics_set_step)
qed

lemma set_h_succeeds:
  "in_range (stops w) e \<Longrightarrow> in_range (stops w) i \<Longrightarrow> \<exists>w'. set_h e i w = Inr w'"
  by (simp add: set_h_def)

lemma distinct_interior: "distinct interior"
  by (simp add: interior_def distinct_product)

lemma init_stops_first_pass:
  "for_each [1..MAP_SIZE_ROWS - 2]
      (\<lambda>i. for_each [1..MAP_SIZE_COLS - 2] (\<lambda>j. add_stop hp m i j)) w
   = for_each interior (\<lambda>c. add_stop hp m (fst c) (snd c)) w"
  by (simp add: for_each_product interior_def case_prod_unfold)

lemma init_stops_result:
  assumes "init_stops hp m (main_init ind0) = Inr w"
  shows "stops_built m ind0 w"
proof -
  let ?w0 = "(main_init ind0)\<lparr>s_len := 0\<rparr>"
  let ?os = "open_cells m"
  from assms obtain w1 where
    p1: "for_each interior (\<lambda>c. add_stop hp m (fst c) (snd c)) ?w0 = Inr w1"
    and p2: "for_each [0..s_len w1 - 1] (set_h (s_len w1 - 1)) w1 = Inr w"
    by (auto simp: init_stops_def init_stops_first_pass Let_def split: sum.splits)
  have sc: "scanned m ?w0 interior w1"
    by (rule scanned_pass[OF p1 distinct_interior]) (simp_all add: main_init_def)
  then have st1: "stops w1 = map (\<lambda>c. new_stop (fst c) (snd c)) ?os"
    and len1: "s_len w1 = int (length ?os)"
    and r1: "routes w1 = []" "r_len w1 = 0" "allocs w1 = length ?os"
    and i1: "\<And>t. t < length ?os \<Longrightarrow> ind w1 (fst (?os ! t)) (snd (?os ! t)) = int t"
    and i2: "\<And>c. c \<notin> set ?os \<Longrightarrow> ind w1 (fst c) (snd c) = ind0 (fst c) (snd c)"
    by (simp_all add: scanned_def Let_def open_cells_def main_init_def)
  have hs: "heuristics_set w1 (s_len w1 - 1) [0..s_len w1 - 1] w"
    by (rule heuristics_set_pass[OF p2]) simp
  then have l2: "length (stops w) = length (stops w1)"
    and f2: "s_len w = s_len w1" "routes w = routes w1" "r_len w = r_len w1"
      "ind w = ind w1" "allocs w = allocs w1"
    and pt: "\<And>u. u < length (stops w1) \<Longrightarrow> stops w ! u =
        (if int u \<in> set [0..s_len w1 - 1] then with_h (stops w1 ! nat (s_len w1 - 1)) (stops w1 ! u)
         else stops w1 ! u)"
    by (simp_all add: heuristics_set_def)
  have "stops w = map (node_of m) ?os"
  proof (rule nth_equalityI)
    show "length (stops w) = length (map (node_of m) ?os)" by (simp add: l2 st1)
  next
    fix u assume "u < length (stops w)"
    then have u: "u < length ?os" by (simp add: l2 st1)
    then have ne: "?os \<noteq> []" by auto
    have "nat (s_len w1 - 1) = length ?os - 1" by (simp add: len1)
    then have "stops w1 ! nat (s_len w1 - 1) = goal_stop m"
      using ne by (simp add: st1 goal_stop_def last_conv_nth)
    moreover have "int u \<in> set [0..s_len w1 - 1]" using u by (simp add: len1)
    ultimately show "stops w ! u = map (node_of m) ?os ! u"
      using pt[of u] u by (simp add: st1 node_of_def)
  qed
  then show ?thesis
    unfolding stops_built_def using f2 len1 r1 i1 i2 by simp
qed

lemma init_stops_succeeds:
  assumes "\<forall>k. hp k"
  shows "\<exists>w. init_stops hp m (main_init ind0) = Inr w"
proof -
  let ?w0 = "(main_init ind0)\<lparr>s_len := 0\<rparr>"
  have "\<exists>w1. for_each interior (\<lambda>c. add_stop hp m (fst c) (snd c)) ?w0 = Inr w1 \<and> True"
    by (rule for_each_succeeds[where I = "\<lambda>_ _. True"]) (use assms add_stop_succeeds in auto)
  then obtain w1 where p1: "for_each interior (\<lambda>c. add_stop hp m (fst c) (snd c)) ?w0 = Inr w1"
    by blast
  have sc: "scanned m ?w0 interior w1"
    by (rule scanned_pass[OF p1 distinct_interior]) (simp_all add: main_init_def)
  then have len1: "s_len w1 = int (length (stops w1))"
    by (simp add: scanned_def Let_def)
  have "\<exists>w. for_each [0..s_len w1 - 1] (set_h (s_len w1 - 1)) w1 = Inr w
          \<and> length (stops w) = length (stops w1)"
  proof (rule for_each_succeeds[where I = "\<lambda>_ w. length (stops w) = length (stops w1)"])
    show "length (stops w1) = length (stops w1)" ..
  next
    fix ds a rest and s :: world
    assume xs: "[0..s_len w1 - 1] = ds @ a # rest" and l: "length (stops s) = length (stops w1)"
    have "a \<in> set [0..s_len w1 - 1]" unfolding xs by simp
    then have a: "0 \<le> a" "a \<le> s_len w1 - 1" by auto
    then have "in_range (stops s) (s_len w1 - 1)" "in_range (stops s) a"
      using l len1 by (auto simp: in_range_def)
    then show "\<exists>s'. set_h (s_len w1 - 1) a s = Inr s' \<and> length (stops s') = length (stops w1)"
      using l by (auto simp: set_h_def)
  qed
  then show ?thesis using p1
    by (auto simp: init_stops_def init_stops_first_pass Let_def)
qed

section \<open>Properties of \<^verbatim>\<open>init_routes\<close>\<close>

lemma out_edges_snoc:
  "out_edges (es @ [r]) u = out_edges es u @ (if route_x r = int u then [int (length es)] else [])"
  by (auto simp: out_edges_def nth_append intro!: filter_cong)

lemma euclid_edges [simp]:
  "euclid (a\<lparr>stop_n := ns, stop_n_len := k\<rparr>) b = euclid a b"
  "euclid a (b\<lparr>stop_n := ns, stop_n_len := k\<rparr>) = euclid a b"
  by (simp_all add: euclid_def)

lemma routed_step:
  assumes "routed w0 ps w" "add_route hp (fst c) (snd c) (fst d) (snd d) w = Inr w'"
  shows "routed w0 (ps @ [(c, d)]) w'"
proof (cases "linked (ind w0) (c, d)")
  case False
  moreover from assms(1) have "ind w = ind w0" by (simp add: routed_def Let_def)
  ultimately have "w' = w" using assms(2)
    by (auto simp: add_route_def linked_def prod_eq_iff split: if_splits)
  with False assms(1) show ?thesis by (simp add: routed_def)
next
  case True
  let ?es = "map (mk_route (stops w0) (ind w0)) (filter (linked (ind w0)) ps)"
  let ?x = "ind w0 (fst c) (snd c)" and ?y = "ind w0 (fst d) (snd d)"
  let ?r = "mk_route (stops w0) (ind w0) (c, d)"
  from assms(1) have inv: "routes w = ?es" "r_len w = int (length ?es)" "ind w = ind w0"
    "s_len w = s_len w0" "allocs w = allocs w0 + 2 * length ?es"
    "length (stops w) = length (stops w0)"
    and pt: "\<And>u. u < length (stops w0) \<Longrightarrow> stops w ! u =
          (stops w0 ! u)\<lparr>stop_n := stop_n (stops w0 ! u) @ out_edges ?es u,
                           stop_n_len := stop_n_len (stops w0 ! u) + int (length (out_edges ?es u))\<rparr>"
    by (simp_all add: routed_def Let_def)
  from True have lk: "\<not> (fst d = fst c \<and> snd d = snd c)" "?y \<ge> 0"
    by (auto simp: linked_def prod_eq_iff)
  from assms(2) lk inv(3) have rx: "in_range (stops w) ?x" and ry: "in_range (stops w) ?y"
    by (auto simp: add_route_def Let_def split: if_splits)
  then have nx: "nat ?x < length (stops w0)" and ny: "nat ?y < length (stops w0)"
    and x0: "0 \<le> ?x"
    using inv(6) by (auto simp: in_range_def)
  have r: "\<lparr>route_x = ?x, route_y = ?y, route_d = euclid (stops w ! nat ?y) (stops w ! nat ?x)\<rparr> = ?r"
    by (simp add: mk_route_def pt[OF nx] pt[OF ny])
  from assms(2) lk inv(3) rx ry
  have w': "w' = w\<lparr>r_len := r_len w + 1, allocs := Suc (Suc (allocs w)),
                   routes := routes w @ [?r],
                   stops := (stops w)[nat ?x := (stops w ! nat ?x)
                       \<lparr>stop_n_len := stop_n_len (stops w ! nat ?x) + 1,
                        stop_n := stop_n (stops w ! nat ?x) @ [r_len w]\<rparr>]\<rparr>"
    by (auto simp: add_route_def Let_def r split: if_splits)
  let ?es' = "?es @ [?r]"
  have es': "map (mk_route (stops w0) (ind w0)) (filter (linked (ind w0)) (ps @ [(c, d)])) = ?es'"
    using True by simp
  have rxr: "route_x ?r = ?x" by (simp add: mk_route_def)
  have "\<forall>u<length (stops w0). stops w' ! u =
          (stops w0 ! u)\<lparr>stop_n := stop_n (stops w0 ! u) @ out_edges ?es' u,
                           stop_n_len := stop_n_len (stops w0 ! u) + int (length (out_edges ?es' u))\<rparr>"
  proof (intro allI impI)
    fix u assume u: "u < length (stops w0)"
    show "stops w' ! u =
          (stops w0 ! u)\<lparr>stop_n := stop_n (stops w0 ! u) @ out_edges ?es' u,
                           stop_n_len := stop_n_len (stops w0 ! u) + int (length (out_edges ?es' u))\<rparr>"
    proof (cases "u = nat ?x")
      case True
      then have "?x = int u" using x0 by simp
      with True u show ?thesis
        by (simp add: w' inv pt[OF u] out_edges_snoc rxr)
    next
      case False
      then have "?x \<noteq> int u" by auto
      with False u show ?thesis
        by (simp add: w' inv pt[OF u] out_edges_snoc rxr)
    qed
  qed
  moreover have "routes w' = ?es'" "r_len w' = int (length ?es')" "ind w' = ind w0"
    "s_len w' = s_len w0" "allocs w' = allocs w0 + 2 * length ?es'"
    "length (stops w') = length (stops w0)"
    by (simp_all add: w' inv)
  ultimately show ?thesis
    unfolding routed_def Let_def es' by (simp only: simp_thms)
qed

lemma visit_loops:
  "visit hp (i, j) w =
     (if ind w i j \<ge> 0 then
        for_each [i - 1..i + 1] (\<lambda>k. for_each [j - 1..j + 1] (\<lambda>l. add_route hp i j k l)) w
      else Inr w)"
  by (simp add: visit_def nbrs_def for_each_product case_prod_unfold)

lemma init_routes_flat:
  "init_routes hp w0 = for_each interior (visit hp) (w0\<lparr>r_len := 0\<rparr>)"
proof -
  have "init_routes hp w0 =
      for_each [1..MAP_SIZE_ROWS - 2] (\<lambda>i. for_each [1..MAP_SIZE_COLS - 2] (\<lambda>j. visit hp (i, j)))
        (w0\<lparr>r_len := 0\<rparr>)"
    unfolding init_routes_def visit_loops ..
  also have "\<dots> = for_each interior (\<lambda>(i, j). visit hp (i, j)) (w0\<lparr>r_len := 0\<rparr>)"
    unfolding interior_def by (rule for_each_product)
  finally show ?thesis by simp
qed

lemma routed_nbrs:
  assumes "for_each ds (\<lambda>d. add_route hp (fst c) (snd c) (fst d) (snd d)) w = Inr w'"
    and "routed w0 ps w"
  shows "routed w0 (ps @ map (Pair c) ds) w'"
proof (rule for_each_invariant[OF assms(1), where I = "\<lambda>ds. routed w0 (ps @ map (Pair c) ds)"])
  show "routed w0 (ps @ map (Pair c) []) w" using assms(2) by simp
next
  fix es a rest and s s' :: world
  assume "routed w0 (ps @ map (Pair c) es) s" "add_route hp (fst c) (snd c) (fst a) (snd a) s = Inr s'"
  then show "routed w0 (ps @ map (Pair c) (es @ [a])) s'"
    using routed_step[of w0 "ps @ map (Pair c) es" s hp c a s'] by simp
qed

lemma visits_snoc:
  "visits ix (cs @ [c]) = visits ix cs @ (if ix (fst c) (snd c) \<ge> 0 then map (Pair c) (nbrs c) else [])"
  by (simp add: visits_def)

lemma routed_visit:
  assumes "visit hp c w = Inr w'" "routed w0 (visits (ind w0) cs) w"
  shows "routed w0 (visits (ind w0) (cs @ [c])) w'"
proof -
  from assms(2) have i: "ind w = ind w0" by (simp add: routed_def Let_def)
  show ?thesis
  proof (cases "ind w0 (fst c) (snd c) \<ge> 0")
    case True
    with assms(1) i have "for_each (nbrs c) (\<lambda>d. add_route hp (fst c) (snd c) (fst d) (snd d)) w = Inr w'"
      by (simp add: visit_def)
    from routed_nbrs[OF this assms(2)] True show ?thesis by (simp add: visits_snoc)
  next
    case False
    with assms i show ?thesis by (simp add: visit_def visits_snoc)
  qed
qed

lemma routed_start:
  "routes w0 = [] \<Longrightarrow> r_len w0 = 0 \<Longrightarrow> routed w0 [] w0"
  by (simp add: routed_def out_edges_def)

lemma init_routes_result:
  assumes "init_routes hp w1 = Inr w" "routes w1 = []"
  shows "routed (w1\<lparr>r_len := 0\<rparr>) (visits (ind w1) interior) w"
proof -
  let ?w0 = "w1\<lparr>r_len := 0\<rparr>"
  from assms(1) have fe: "for_each interior (visit hp) ?w0 = Inr w"
    by (simp add: init_routes_flat)
  have "routed ?w0 (visits (ind ?w0) interior) w"
  proof (rule for_each_invariant[OF fe, where I = "\<lambda>cs. routed ?w0 (visits (ind ?w0) cs)"])
    show "routed ?w0 (visits (ind ?w0) []) ?w0"
      using assms(2) by (simp add: visits_def routed_start)
  next
    fix ds a rest and s s' :: world
    assume "routed ?w0 (visits (ind ?w0) ds) s" "visit hp a s = Inr s'"
    then show "routed ?w0 (visits (ind ?w0) (ds @ [a])) s'"
      by (rule routed_visit[rotated])
  qed
  then show ?thesis by simp
qed

lemma add_route_succeeds:
  assumes "routed w0 ps w" "\<forall>k. hp k"
    and "linked (ind w0) (c, d) \<Longrightarrow>
           in_range (stops w0) (ind w0 (fst c) (snd c)) \<and> in_range (stops w0) (ind w0 (fst d) (snd d))"
  shows "\<exists>w'. add_route hp (fst c) (snd c) (fst d) (snd d) w = Inr w'"
proof -
  from assms(1) have i: "ind w = ind w0" "length (stops w) = length (stops w0)"
    by (simp_all add: routed_def Let_def)
  show ?thesis
  proof (cases "linked (ind w0) (c, d)")
    case True
    from assms(3)[OF this] i assms(2) show ?thesis
      by (simp add: add_route_def Let_def in_range_def)
  next
    case False
    with i show ?thesis by (auto simp: add_route_def linked_def prod_eq_iff)
  qed
qed

lemma visit_succeeds:
  assumes "routed w0 (visits (ind w0) cs) w" "\<forall>k. hp k" "indexed w0 (cs @ [c])"
  shows "\<exists>w'. visit hp c w = Inr w'"
proof -
  from assms(1) have i: "ind w = ind w0" by (simp add: routed_def Let_def)
  show ?thesis
  proof (cases "ind w0 (fst c) (snd c) \<ge> 0")
    case False
    with i show ?thesis by (simp add: visit_def)
  next
    case True
    have "\<exists>w'. for_each (nbrs c) (\<lambda>d. add_route hp (fst c) (snd c) (fst d) (snd d)) w = Inr w'
            \<and> routed w0 (visits (ind w0) cs @ map (Pair c) (nbrs c)) w'"
    proof (rule for_each_succeeds[where I = "\<lambda>ds. routed w0 (visits (ind w0) cs @ map (Pair c) ds)"])
      show "routed w0 (visits (ind w0) cs @ map (Pair c) []) w" using assms(1) by simp
    next
      fix ds a rest and s :: world
      assume xs: "nbrs c = ds @ a # rest"
        and r: "routed w0 (visits (ind w0) cs @ map (Pair c) ds) s"
      have "(c, a) \<in> set (visits (ind w0) (cs @ [c]))"
        using True xs by (simp add: visits_snoc)
      with assms(3) have "linked (ind w0) (c, a) \<Longrightarrow>
           in_range (stops w0) (ind w0 (fst c) (snd c)) \<and> in_range (stops w0) (ind w0 (fst a) (snd a))"
        unfolding indexed_def by fastforce
      from add_route_succeeds[OF r assms(2) this]
      obtain s' where s': "add_route hp (fst c) (snd c) (fst a) (snd a) s = Inr s'" by blast
      from routed_step[OF r s'] s'
      show "\<exists>s'. add_route hp (fst c) (snd c) (fst a) (snd a) s = Inr s' \<and>
                 routed w0 (visits (ind w0) cs @ map (Pair c) (ds @ [a])) s'"
        by simp
    qed
    with True i show ?thesis by (auto simp: visit_def)
  qed
qed

lemma indexed_prefix: "indexed w0 (cs @ ds) \<Longrightarrow> indexed w0 cs"
  by (auto simp: indexed_def visits_def)

lemma init_routes_succeeds:
  assumes "\<forall>k. hp k" "routes w1 = []" "indexed w1 interior"
  shows "\<exists>w. init_routes hp w1 = Inr w"
proof -
  let ?w0 = "w1\<lparr>r_len := 0\<rparr>"
  have ix: "indexed ?w0 interior" using assms(3) by (simp add: indexed_def)
  have "\<exists>w. for_each interior (visit hp) ?w0 = Inr w \<and> routed ?w0 (visits (ind ?w0) interior) w"
  proof (rule for_each_succeeds[where I = "\<lambda>cs. routed ?w0 (visits (ind ?w0) cs)"])
    show "routed ?w0 (visits (ind ?w0) []) ?w0"
      using assms(2) by (simp add: visits_def routed_start)
  next
    fix ds a rest and s :: world
    assume xs: "interior = ds @ a # rest" and r: "routed ?w0 (visits (ind ?w0) ds) s"
    have "indexed ?w0 (ds @ [a])"
      using ix indexed_prefix[of ?w0 "ds @ [a]" rest] unfolding xs by simp
    from visit_succeeds[OF r assms(1) this] obtain s' where s': "visit hp a s = Inr s'" by blast
    from routed_visit[OF s' r] s'
    show "\<exists>s'. visit hp a s = Inr s' \<and> routed ?w0 (visits (ind ?w0) (ds @ [a])) s'" by blast
  qed
  then show ?thesis by (auto simp: init_routes_flat)
qed

section \<open>The graph as built\<close>

lemma node_of_edges [simp]:
  "stop_n (node_of m c) = []" "stop_n_len (node_of m c) = 0"
  "stop_row (node_of m c) = of_int (fst c)" "stop_col (node_of m c) = of_int (snd c)"
  "stop_g (node_of m c) = DBL_MAX" "stop_from (node_of m c) = - 1"
  "stop_f (node_of m c) = None"
  "stop_h (node_of m c) = Some (euclid (goal_stop m) (new_stop (fst c) (snd c)))"
  by (simp_all add: node_of_def with_h_def new_stop_def)

lemma build_graph_split:
  assumes "build_graph hp m ind0 = Inr w"
  obtains w1 where "init_stops hp m (main_init ind0) = Inr w1" "init_routes hp w1 = Inr w"
  using assms by (auto simp: build_graph_def split: sum.splits)

lemma stops_routed_graph:
  assumes sb: "stops_built m ind0 w1"
    and rt: "routed (w1\<lparr>r_len := 0\<rparr>) (visits (ind w1) interior) w"
  shows "graph_built m ind0 w"
proof -
  let ?os = "open_cells m"
  let ?es = "map (mk_route (map (node_of m) ?os) (ind w1)) (filter (linked (ind w1)) (visits (ind w1) interior))"
  from sb have s1: "stops w1 = map (node_of m) ?os" "s_len w1 = int (length ?os)"
    "allocs w1 = length ?os"
    and i1: "\<forall>t<length ?os. ind w1 (fst (?os ! t)) (snd (?os ! t)) = int t"
    and i2: "\<forall>c. c \<notin> set ?os \<longrightarrow> ind w1 (fst c) (snd c) = ind0 (fst c) (snd c)"
    by (simp_all add: stops_built_def)
  from rt have r: "routes w = ?es" "r_len w = int (length ?es)" "ind w = ind w1"
    "s_len w = s_len w1" "allocs w = allocs w1 + 2 * length ?es"
    "length (stops w) = length (stops w1)"
    and pt: "\<And>u. u < length (stops w1) \<Longrightarrow> stops w ! u =
          (stops w1 ! u)\<lparr>stop_n := stop_n (stops w1 ! u) @ out_edges ?es u,
                           stop_n_len := stop_n_len (stops w1 ! u) + int (length (out_edges ?es u))\<rparr>"
    by (simp_all add: routed_def Let_def s1)
  have "\<forall>u<length ?os. stops w ! u =
          (node_of m (?os ! u))\<lparr>stop_n := out_edges (routes w) u,
                                stop_n_len := int (length (out_edges (routes w) u))\<rparr>"
    using pt by (simp add: s1 r(1))
  then show ?thesis
    unfolding graph_built_def Let_def using r s1 i1 i2 by simp
qed

lemma build_graph_result:
  assumes "build_graph hp m ind0 = Inr w"
  shows "graph_built m ind0 w"
proof -
  from assms obtain w1 where a: "init_stops hp m (main_init ind0) = Inr w1"
    and b: "init_routes hp w1 = Inr w" by (rule build_graph_split)
  have sb: "stops_built m ind0 w1" by (rule init_stops_result[OF a])
  then have "routes w1 = []" by (simp add: stops_built_def)
  from init_routes_result[OF b this] sb show ?thesis by (rule stops_routed_graph[rotated])
qed

lemma set_interior:
  "c \<in> set interior \<longleftrightarrow>
     1 \<le> fst c \<and> fst c \<le> MAP_SIZE_ROWS - 2 \<and> 1 \<le> snd c \<and> snd c \<le> MAP_SIZE_COLS - 2"
  by (cases c) (auto simp: interior_def)

lemma distinct_open_cells: "distinct (open_cells m)"
  by (simp add: open_cells_def distinct_interior)

lemma set_open_cells:
  "c \<in> set (open_cells m) \<longleftrightarrow> c \<in> set interior \<and> m (fst c) (snd c) = 0"
  by (auto simp: open_cells_def is_open_def)

lemma stops_built_indexes: "stops_built m ind0 w \<Longrightarrow> indexes m ind0 (ind w)"
  by (simp add: stops_built_def indexes_def)

lemma graph_built_indexes: "graph_built m ind0 w \<Longrightarrow> indexes m ind0 (ind w)"
  by (simp add: graph_built_def indexes_def Let_def)

lemma indexes_open:
  assumes "indexes m ind0 ix" "c \<in> set (open_cells m)"
  obtains t where "t < length (open_cells m)" "open_cells m ! t = c" "ix (fst c) (snd c) = int t"
proof -
  from assms(2) obtain t where "t < length (open_cells m)" "open_cells m ! t = c"
    by (auto simp: in_set_conv_nth)
  with assms(1) that show ?thesis by (auto simp: indexes_def)
qed

lemma indexes_nonneg:
  assumes "indexes m ind0 ix" "sentinel ind0"
    and "0 \<le> fst c" "fst c \<le> MAP_SIZE_ROWS - 1" "0 \<le> snd c" "snd c \<le> MAP_SIZE_COLS - 1"
    and "ix (fst c) (snd c) \<ge> 0"
  shows "c \<in> set (open_cells m)"
proof (rule ccontr)
  assume "c \<notin> set (open_cells m)"
  with assms(1) have "ix (fst c) (snd c) = ind0 (fst c) (snd c)" by (simp add: indexes_def)
  moreover from assms(2-6) have "ind0 (fst c) (snd c) < 0" by (simp add: sentinel_def)
  ultimately show False using assms(7) by simp
qed

lemma set_nbrs:
  "d \<in> set (nbrs c) \<longleftrightarrow> \<bar>fst d - fst c\<bar> \<le> 1 \<and> \<bar>snd d - snd c\<bar> \<le> 1"
  by (cases d) (auto simp: nbrs_def)

lemma set_visits:
  "p \<in> set (visits ix cs) \<longleftrightarrow>
     fst p \<in> set cs \<and> ix (fst (fst p)) (snd (fst p)) \<ge> 0 \<and> snd p \<in> set (nbrs (fst p))"
  by (cases p) (auto simp: visits_def)

lemma indexes_indexed:
  assumes ix: "indexes m ind0 (ind w1)" and sn: "sentinel ind0"
    and len: "length (stops w1) = length (open_cells m)"
  shows "indexed w1 interior"
  unfolding indexed_def
proof (intro ballI impI)
  fix p assume p: "p \<in> set (visits (ind w1) interior)" and lk: "linked (ind w1) p"
  let ?c = "fst p" and ?d = "snd p"
  from p have c: "?c \<in> set interior" "ind w1 (fst ?c) (snd ?c) \<ge> 0" and d: "?d \<in> set (nbrs ?c)"
    by (simp_all add: set_visits)
  from c(1) have cb: "1 \<le> fst ?c" "fst ?c \<le> MAP_SIZE_ROWS - 2" "1 \<le> snd ?c" "snd ?c \<le> MAP_SIZE_COLS - 2"
    by (simp_all add: set_interior)
  from d have db: "\<bar>fst ?d - fst ?c\<bar> \<le> 1" "\<bar>snd ?d - snd ?c\<bar> \<le> 1" by (simp_all add: set_nbrs)
  have "?c \<in> set (open_cells m)"
    by (rule indexes_nonneg[OF ix sn]) (use cb c(2) in auto)
  then obtain t where t: "t < length (open_cells m)" "ind w1 (fst ?c) (snd ?c) = int t"
    by (rule indexes_open[OF ix])
  from lk have "ind w1 (fst ?d) (snd ?d) \<ge> 0" by (simp add: linked_def)
  then have "?d \<in> set (open_cells m)"
    by (intro indexes_nonneg[OF ix sn]) (use cb db in auto)
  then obtain u where u: "u < length (open_cells m)" "ind w1 (fst ?d) (snd ?d) = int u"
    by (rule indexes_open[OF ix])
  from t u len
  show "in_range (stops w1) (ind w1 (fst ?c) (snd ?c)) \<and> in_range (stops w1) (ind w1 (fst ?d) (snd ?d))"
    by (simp add: in_range_def)
qed

lemma build_graph_succeeds:
  assumes "\<forall>k. hp k" "sentinel ind0"
  shows "\<exists>w. build_graph hp m ind0 = Inr w"
proof -
  from init_stops_succeeds[OF assms(1)] obtain w1
    where a: "init_stops hp m (main_init ind0) = Inr w1" by blast
  have sb: "stops_built m ind0 w1" by (rule init_stops_result[OF a])
  then have "routes w1 = []" "length (stops w1) = length (open_cells m)"
    by (simp_all add: stops_built_def)
  from init_routes_succeeds[OF assms(1) this(1)
      indexes_indexed[OF stops_built_indexes[OF sb] assms(2) this(2)]] a
  show ?thesis by (auto simp: build_graph_def)
qed

lemma heuristic_after_build:
  assumes "init_stops hp m (main_init ind0) = Inr w1" and "open_cells m \<noteq> []"
  shows "(\<forall>i<length (stops w1).
            stop_h (stops w1 ! i) =
              Some (sqrt ((stop_row (last (stops w1)) - stop_row (stops w1 ! i))\<^sup>2 +
                          (stop_col (last (stops w1)) - stop_col (stops w1 ! i))\<^sup>2))) \<and>
         (\<forall>hp' w. init_routes hp' w1 = Inr w \<longrightarrow>
            length (stops w) = length (stops w1) \<and>
            (\<forall>i<length (stops w1).
               stop_h (stops w ! i) = stop_h (stops w1 ! i) \<and>
               stop_row (stops w ! i) = stop_row (stops w1 ! i) \<and>
               stop_col (stops w ! i) = stop_col (stops w1 ! i)))"
proof (intro conjI allI impI)
  from init_stops_result[OF assms(1)]
  have sb: "stops_built m ind0 w1" .
  then have st: "stops w1 = map (node_of m) (open_cells m)" by (simp add: stops_built_def)
  have lst: "stop_row (last (stops w1)) = of_int (fst (last (open_cells m)))"
    "stop_col (last (stops w1)) = of_int (snd (last (open_cells m)))"
    using assms(2) by (simp_all add: st last_map)
  {
    fix i assume "i < length (stops w1)"
    then show "stop_h (stops w1 ! i) =
              Some (sqrt ((stop_row (last (stops w1)) - stop_row (stops w1 ! i))\<^sup>2 +
                          (stop_col (last (stops w1)) - stop_col (stops w1 ! i))\<^sup>2))"
      unfolding lst by (simp add: st euclid_def goal_stop_def new_stop_def)
  }
  fix hp' w assume r: "init_routes hp' w1 = Inr w"
  from sb have "routes w1 = []" by (simp add: stops_built_def)
  from init_routes_result[OF r this]
  have len: "length (stops w) = length (stops w1)"
    and pt: "\<And>u. u < length (stops w1) \<Longrightarrow> \<exists>ns k. stops w ! u = (stops w1 ! u)\<lparr>stop_n := ns, stop_n_len := k\<rparr>"
    by (auto simp: routed_def Let_def)
  show "length (stops w) = length (stops w1)" by (rule len)
  fix i assume "i < length (stops w1)"
  from pt[OF this] obtain ns k where e: "stops w ! i = (stops w1 ! i)\<lparr>stop_n := ns, stop_n_len := k\<rparr>"
    by blast
  show "stop_h (stops w ! i) = stop_h (stops w1 ! i)" by (simp add: e)
  show "stop_row (stops w ! i) = stop_row (stops w1 ! i)" by (simp add: e)
  show "stop_col (stops w ! i) = stop_col (stops w1 ! i)" by (simp add: e)
qed

lemma first_pass_leaves_h:
  assumes "for_each [1..MAP_SIZE_ROWS - 2]
             (\<lambda>i. for_each [1..MAP_SIZE_COLS - 2] (\<lambda>j. add_stop hp m i j))
             ((main_init ind0)\<lparr>s_len := 0\<rparr>) = Inr w0"
  shows "length (stops w0) = length (open_cells m) \<and>
         (\<forall>i<length (stops w0). stop_h (stops w0 ! i) = None)"
proof -
  let ?w = "(main_init ind0)\<lparr>s_len := 0\<rparr>"
  from assms have "for_each interior (\<lambda>c. add_stop hp m (fst c) (snd c)) ?w = Inr w0"
    by (simp add: init_stops_first_pass)
  then have "scanned m ?w interior w0"
    by (rule scanned_pass[OF _ distinct_interior]) (simp_all add: main_init_def)
  then have "stops w0 = map (\<lambda>c. new_stop (fst c) (snd c)) (open_cells m)"
    by (simp add: scanned_def Let_def open_cells_def)
  then show ?thesis by (simp add: new_stop_def)
qed

subsection \<open>The examples\<close>

lemma interior_cells:
  "interior = concat (map (\<lambda>i. map (Pair i) [1, 2, 3, 4, 5, 6, 7, 8]) [1, 2, 3, 4, 5, 6, 7, 8])"
  by (simp add: interior_def MAP_SIZE_ROWS_def MAP_SIZE_COLS_def upto_rec1)

lemma open_cells_sample: "open_cells sample_grid = [(1, 1), (1, 2), (2, 2), (4, 4)]"
  by (simp add: open_cells_def interior_cells is_open_def sample_grid_def)

lemma sentinel_minus_one: "sentinel (\<lambda>_ _. - 1)"
  by (simp add: sentinel_def)

subsection \<open>Edges and their weights\<close>

lemma graph_built_routes:
  assumes "graph_built m ind0 w"
  shows "routes w = map (mk_route (map (node_of m) (open_cells m)) (ind w))
                     (filter (linked (ind w)) (visits (ind w) interior))"
    and "r_len w = int (length (routes w))"
    and "length (stops w) = length (open_cells m)"
  using assms by (simp_all add: graph_built_def Let_def)

lemma graph_built_stop:
  assumes "graph_built m ind0 w" "u < length (open_cells m)"
  shows "stops w ! u =
          (node_of m (open_cells m ! u))\<lparr>stop_n := out_edges (routes w) u,
                                stop_n_len := int (length (out_edges (routes w) u))\<rparr>"
  using assms by (simp add: graph_built_def Let_def)

lemma unit_step_norm:
  fixes x y :: int
  assumes "\<bar>x\<bar> \<le> 1" "\<bar>y\<bar> \<le> 1" "x \<noteq> 0 \<or> y \<noteq> 0"
  shows "sqrt ((real_of_int x)\<^sup>2 + (real_of_int y)\<^sup>2) = (if x = 0 \<or> y = 0 then 1 else sqrt 2)"
proof -
  from assms(1) have x: "x = - 1 \<or> x = 0 \<or> x = 1" by linarith
  from assms(2) have y: "y = - 1 \<or> y = 0 \<or> y = 1" by linarith
  from x y assms(3) show ?thesis by (elim disjE; simp)
qed

lemma unit_step_distance:
  fixes a b c d :: int
  assumes "\<bar>a - c\<bar> \<le> 1" "\<bar>b - d\<bar> \<le> 1" "a \<noteq> c \<or> b \<noteq> d"
  shows "sqrt ((real_of_int c - real_of_int a)\<^sup>2 + (real_of_int d - real_of_int b)\<^sup>2)
           = (if a = c \<or> b = d then 1 else sqrt 2)"
proof -
  have "sqrt ((real_of_int (c - a))\<^sup>2 + (real_of_int (d - b))\<^sup>2)
           = (if c - a = 0 \<or> d - b = 0 then 1 else sqrt 2)"
    by (rule unit_step_norm) (use assms in auto)
  moreover have "(c - a = 0) = (a = c)" "(d - b = 0) = (b = d)" by auto
  ultimately show ?thesis by (simp only: of_int_diff)
qed

subsection \<open>The number of edges that leave a node\<close>

lemma length_filter_nth:
  "length (filter (\<lambda>t. P (xs ! t)) [0..<length xs]) = length (filter P xs)"
proof (induction xs rule: rev_induct)
  case Nil
  then show ?case by simp
next
  case (snoc x xs)
  have "filter (\<lambda>t. P ((xs @ [x]) ! t)) [0..<length xs] = filter (\<lambda>t. P (xs ! t)) [0..<length xs]"
    by (rule filter_cong) (auto simp: nth_append)
  with snoc show ?case by simp
qed

lemma length_filter_concat:
  "length (filter Q (concat xss)) = sum_list (map (\<lambda>xs. length (filter Q xs)) xss)"
  by (induction xss) simp_all

lemma sum_list_one_nonzero:
  fixes g :: "'a \<Rightarrow> nat"
  assumes "distinct cs" "\<And>c. c \<in> set cs \<Longrightarrow> c \<noteq> c0 \<Longrightarrow> g c = 0"
  shows "sum_list (map g cs) \<le> g c0"
  using assms
proof (induction cs)
  case Nil
  then show ?case by simp
next
  case (Cons c cs)
  show ?case
  proof (cases "c = c0")
    case True
    with Cons.prems have "\<And>d. d \<in> set cs \<Longrightarrow> g d = 0" by auto
    then have "sum_list (map g cs) = 0" by (simp add: sum_list_eq_0_iff)
    with True show ?thesis by simp
  next
    case False
    with Cons.prems have "g c = 0" by simp
    moreover have "sum_list (map g cs) \<le> g c0" using Cons by simp
    ultimately show ?thesis by simp
  qed
qed

lemma length_filter_mono:
  "(\<And>x. x \<in> set xs \<Longrightarrow> P x \<Longrightarrow> Q x) \<Longrightarrow> length (filter P xs) \<le> length (filter Q xs)"
  by (induction xs) auto

lemma length_nbrs: "length (nbrs c) = 9"
  by (simp add: nbrs_def)

lemma other_nbrs: "length (filter (\<lambda>d. d \<noteq> c) (nbrs c)) \<le> 8"
proof -
  have "c \<in> set (nbrs c)" by (simp add: set_nbrs)
  then have "length (filter (\<lambda>d. d \<noteq> c) (nbrs c)) < length (nbrs c)"
    by (intro length_filter_less[of c]) simp_all
  then show ?thesis by (simp add: length_nbrs)
qed

lemma out_degree:
  assumes ix: "indexes m ind0 ix" and sn: "sentinel ind0" and u: "u < length (open_cells m)"
  shows "length (filter (\<lambda>p. ix (fst (fst p)) (snd (fst p)) = int u)
                  (filter (linked ix) (visits ix interior))) \<le> 8"
proof -
  let ?os = "open_cells m"
  let ?c0 = "?os ! u"
  let ?Q = "\<lambda>p. linked ix p \<and> ix (fst (fst p)) (snd (fst p)) = int u"
  let ?f = "\<lambda>c. if ix (fst c) (snd c) \<ge> 0 then map (Pair c) (nbrs c) else []"
  let ?g = "\<lambda>c. length (filter ?Q (?f c))"
  have other: "?g c = 0" if c: "c \<in> set interior" "c \<noteq> ?c0" for c
  proof (cases "ix (fst c) (snd c) = int u")
    case False
    then show ?thesis by (auto simp: filter_empty_conv)
  next
    case True
    from c(1) have "1 \<le> fst c" "fst c \<le> MAP_SIZE_ROWS - 2" "1 \<le> snd c" "snd c \<le> MAP_SIZE_COLS - 2"
      by (simp_all add: set_interior)
    then have "c \<in> set ?os"
      by (intro indexes_nonneg[OF ix sn]) (use True in auto)
    then obtain t where t: "t < length ?os" "?os ! t = c" "ix (fst c) (snd c) = int t"
      by (rule indexes_open[OF ix])
    with True have "t = u" by simp
    with t(2) c(2) show ?thesis by simp
  qed
  have "?g ?c0 \<le> length (filter (\<lambda>d. d \<noteq> ?c0) (nbrs ?c0))"
  proof (cases "ix (fst ?c0) (snd ?c0) \<ge> 0")
    case True
    have "length (filter ?Q (map (Pair ?c0) (nbrs ?c0)))
            \<le> length (filter (\<lambda>p. snd p \<noteq> ?c0) (map (Pair ?c0) (nbrs ?c0)))"
      by (rule length_filter_mono) (auto simp: linked_def)
    also have "\<dots> = length (filter (\<lambda>d. d \<noteq> ?c0) (nbrs ?c0))"
      by (simp add: filter_map comp_def)
    finally show ?thesis using True by simp
  next
    case False
    then show ?thesis by simp
  qed
  then have c0: "?g ?c0 \<le> 8" using other_nbrs[of ?c0] by linarith
  have "length (filter (\<lambda>p. ix (fst (fst p)) (snd (fst p)) = int u) (filter (linked ix) (visits ix interior)))
          = length (filter ?Q (concat (map ?f interior)))"
    by (simp add: visits_def conj_commute)
  also have "\<dots> = sum_list (map ?g interior)"
    by (simp add: length_filter_concat comp_def)
  also have "\<dots> \<le> ?g ?c0"
    by (rule sum_list_one_nonzero[OF distinct_interior]) (rule other)
  finally show ?thesis using c0 by linarith
qed

lemma out_edges_sorted: "sorted_wrt (<) (out_edges es u)"
proof -
  have "sorted_wrt (<) (filter (\<lambda>t. route_x (es ! t) = int u) [0..<length es])"
    by (rule sorted_wrt_filter) simp
  then show ?thesis
    unfolding out_edges_def by (simp add: sorted_wrt_map)
qed

lemma out_edges_range: "t \<in> set (out_edges es u) \<Longrightarrow> 0 \<le> t \<and> t < int (length es)"
  by (auto simp: out_edges_def)

section \<open>Properties of \<^verbatim>\<open>main\<close>\<close>

lemma open_cells_blocked: "open_cells blocked_grid = []"
  by (simp add: open_cells_def is_open_def blocked_grid_def)

lemma open_cells_one_cell: "open_cells one_cell_grid = [(1, 1)]"
  by (simp add: open_cells_def interior_cells is_open_def one_cell_grid_def)

lemma main_path_null:
  assumes "build_graph hp m ind0 = Inr w"
    and "fp (stops w) (routes w) (s_len w) None 0 = Inr (ret, sts, p_len)"
    and "ret \<noteq> 0" and "p_len \<ge> 1"
  shows "main_c fp hp m ind0 = Inl Null_Deref"
proof -
  from assms(4) have "rev [0..p_len - 1] = (p_len - 1) # rev [0..p_len - 2]"
    by (simp add: upto_rec2)
  then have "for_each (rev [0..p_len - 1]) (print_stop None sts) [] = Inl Null_Deref"
    by (simp add: print_stop_def)
  with assms(1-3) show ?thesis
    by (simp add: main_c_def main_report_def)
qed

section \<open>Allocation and errors of graph construction\<close>

lemma for_each_preserves:
  assumes "for_each xs body s0 = Inr s" "P s0"
    and "\<And>a s s'. P s \<Longrightarrow> body a s = Inr s' \<Longrightarrow> P s'"
  shows "P s"
  using for_each_invariant[OF assms(1), where I = "\<lambda>_. P"] assms(2,3) by blast

lemma for_each_error_aux:
  assumes "for_each xs body s0 = Inl e"
    and "I pre s0"
    and "\<And>ds a rest s s'. pre @ xs = ds @ a # rest \<Longrightarrow> I ds s \<Longrightarrow> body a s = Inr s'
            \<Longrightarrow> I (ds @ [a]) s'"
  shows "\<exists>ds a rest s. pre @ xs = ds @ a # rest \<and> I ds s \<and> body a s = Inl e"
  using assms
proof (induction xs arbitrary: pre s0)
  case Nil
  then show ?case by simp
next
  case (Cons a xs)
  show ?case
  proof (cases "body a s0")
    case (Inl e')
    with Cons.prems(1) have "e' = e" by simp
    with Inl Cons.prems(2) show ?thesis by blast
  next
    case (Inr s1)
    with Cons.prems(1) have r: "for_each xs body s1 = Inl e" by simp
    have "I (pre @ [a]) s1" using Cons.prems(3)[of pre a xs s0 s1] Cons.prems(2) Inr by simp
    from Cons.IH[OF r this] Cons.prems(3) show ?thesis by simp
  qed
qed

lemma for_each_error:
  assumes "for_each xs body s0 = Inl e"
    and "I [] s0"
    and "\<And>ds a rest s s'. xs = ds @ a # rest \<Longrightarrow> I ds s \<Longrightarrow> body a s = Inr s'
            \<Longrightarrow> I (ds @ [a]) s'"
  obtains ds a rest s where "xs = ds @ a # rest" "I ds s" "body a s = Inl e"
  using for_each_error_aux[of xs body s0 e I "[]"] assms by auto

lemma add_stop_granted:
  "granted hp w \<Longrightarrow> add_stop hp m i j w = Inr w' \<Longrightarrow> granted hp w'"
  by (auto simp: add_stop_def granted_def Let_def less_Suc_eq split: if_splits)

lemma set_h_granted:
  "granted hp w \<Longrightarrow> set_h e i w = Inr w' \<Longrightarrow> granted hp w'"
  by (auto simp: set_h_def granted_def split: if_splits)

lemma add_route_granted:
  "granted hp w \<Longrightarrow> add_route hp i j k l w = Inr w' \<Longrightarrow> granted hp w'"
  by (auto simp: add_route_def granted_def Let_def less_Suc_eq split: if_splits)

lemma visit_granted:
  assumes "granted hp w" "visit hp c w = Inr w'"
  shows "granted hp w'"
proof (cases "ind w (fst c) (snd c) \<ge> 0")
  case True
  with assms(2) have "for_each (nbrs c) (\<lambda>d. add_route hp (fst c) (snd c) (fst d) (snd d)) w = Inr w'"
    by (simp add: visit_def)
  then show ?thesis
    by (rule for_each_preserves[where P = "granted hp"]) (use assms(1) add_route_granted in blast)+
next
  case False
  with assms show ?thesis by (simp add: visit_def)
qed

lemma build_graph_granted:
  assumes "build_graph hp m ind0 = Inr w"
  shows "granted hp w"
proof -
  from assms obtain w1 where a: "init_stops hp m (main_init ind0) = Inr w1"
    and b: "init_routes hp w1 = Inr w" by (rule build_graph_split)
  let ?w0 = "(main_init ind0)\<lparr>s_len := 0\<rparr>"
  from a obtain w2 where
    p1: "for_each interior (\<lambda>c. add_stop hp m (fst c) (snd c)) ?w0 = Inr w2"
    and p2: "for_each [0..s_len w2 - 1] (set_h (s_len w2 - 1)) w2 = Inr w1"
    by (auto simp: init_stops_def init_stops_first_pass Let_def split: sum.splits)
  have "granted hp ?w0" by (simp add: granted_def main_init_def)
  with p1 have "granted hp w2"
    by (rule for_each_preserves[where P = "granted hp"]) (use add_stop_granted in blast)
  with p2 have "granted hp w1"
    by (rule for_each_preserves[where P = "granted hp"]) (use set_h_granted in blast)
  then have "granted hp (w1\<lparr>r_len := 0\<rparr>)" by (simp add: granted_def)
  with b[unfolded init_routes_flat] show ?thesis
    by (rule for_each_preserves[where P = "granted hp"]) (use visit_granted in blast)
qed

lemma heuristics_pass_succeeds:
  assumes "s_len w1 = int (length (stops w1))"
  shows "\<exists>w. for_each [0..s_len w1 - 1] (set_h (s_len w1 - 1)) w1 = Inr w"
proof -
  have "\<exists>w. for_each [0..s_len w1 - 1] (set_h (s_len w1 - 1)) w1 = Inr w
          \<and> length (stops w) = length (stops w1)"
  proof (rule for_each_succeeds[where I = "\<lambda>_ w. length (stops w) = length (stops w1)"])
    show "length (stops w1) = length (stops w1)" ..
  next
    fix ds a rest and s :: world
    assume xs: "[0..s_len w1 - 1] = ds @ a # rest" and l: "length (stops s) = length (stops w1)"
    have "a \<in> set [0..s_len w1 - 1]" unfolding xs by simp
    then have a: "0 \<le> a" "a \<le> s_len w1 - 1" by auto
    then have "in_range (stops s) (s_len w1 - 1)" "in_range (stops s) a"
      using l assms by (auto simp: in_range_def)
    then show "\<exists>s'. set_h (s_len w1 - 1) a s = Inr s' \<and> length (stops s') = length (stops w1)"
      using l by (auto simp: set_h_def)
  qed
  then show ?thesis by blast
qed

lemma init_stops_error:
  assumes "init_stops hp m (main_init ind0) = Inl e"
  shows "e = Null_Deref \<and> (\<exists>k. \<not> hp k)"
proof -
  let ?w0 = "(main_init ind0)\<lparr>s_len := 0\<rparr>"
  let ?p1 = "for_each interior (\<lambda>c. add_stop hp m (fst c) (snd c)) ?w0"
  show ?thesis
  proof (cases ?p1)
    case (Inl e')
    then obtain ds a rest s where "add_stop hp m (fst a) (snd a) s = Inl e'"
      by (rule for_each_error[where I = "\<lambda>_ _. True"]) auto
    then have "e' = Null_Deref \<and> (\<exists>k. \<not> hp k)"
      by (auto simp: add_stop_def Let_def split: if_splits)
    moreover from Inl assms have "e = e'"
      by (simp add: init_stops_def init_stops_first_pass)
    ultimately show ?thesis by simp
  next
    case (Inr w1)
    have "scanned m ?w0 interior w1"
      by (rule scanned_pass[OF Inr distinct_interior]) (simp_all add: main_init_def)
    then have "s_len w1 = int (length (stops w1))" by (simp add: scanned_def Let_def)
    from heuristics_pass_succeeds[OF this] Inr assms show ?thesis
      by (auto simp: init_stops_def init_stops_first_pass Let_def)
  qed
qed

lemma add_route_error:
  assumes "routed w0 ps w" "add_route hp (fst c) (snd c) (fst d) (snd d) w = Inl e"
    and "linked (ind w0) (c, d) \<Longrightarrow>
           in_range (stops w0) (ind w0 (fst c) (snd c)) \<and> in_range (stops w0) (ind w0 (fst d) (snd d))"
  shows "e = Null_Deref \<and> (\<exists>k. \<not> hp k)"
proof -
  from assms(1) have i: "ind w = ind w0" "length (stops w) = length (stops w0)"
    by (simp_all add: routed_def Let_def)
  show ?thesis
  proof (cases "linked (ind w0) (c, d)")
    case True
    from assms(3)[OF this] i assms(2) show ?thesis
      by (auto simp: add_route_def Let_def in_range_def split: if_splits)
  next
    case False
    with i assms(2) show ?thesis by (auto simp: add_route_def linked_def prod_eq_iff split: if_splits)
  qed
qed

lemma visit_error:
  assumes r: "routed w0 (visits (ind w0) cs) w" and v: "visit hp c w = Inl e"
    and ix: "indexed w0 (cs @ [c])"
  shows "e = Null_Deref \<and> (\<exists>k. \<not> hp k)"
proof -
  from r have i: "ind w = ind w0" by (simp add: routed_def Let_def)
  from v i have pos: "ind w0 (fst c) (snd c) \<ge> 0"
    and fe: "for_each (nbrs c) (\<lambda>d. add_route hp (fst c) (snd c) (fst d) (snd d)) w = Inl e"
    by (auto simp: visit_def split: if_splits)
  from fe obtain ds a rest s where xs: "nbrs c = ds @ a # rest"
    and rs: "routed w0 (visits (ind w0) cs @ map (Pair c) ds) s"
    and er: "add_route hp (fst c) (snd c) (fst a) (snd a) s = Inl e"
  proof (rule for_each_error[where I = "\<lambda>ds. routed w0 (visits (ind w0) cs @ map (Pair c) ds)"])
    show "routed w0 (visits (ind w0) cs @ map (Pair c) []) w" using r by simp
  next
    fix ds a rest and s s' :: world
    assume "routed w0 (visits (ind w0) cs @ map (Pair c) ds) s"
      "add_route hp (fst c) (snd c) (fst a) (snd a) s = Inr s'"
    then show "routed w0 (visits (ind w0) cs @ map (Pair c) (ds @ [a])) s'"
      using routed_step[of w0 "visits (ind w0) cs @ map (Pair c) ds" s hp c a s'] by simp
  qed
  have "(c, a) \<in> set (visits (ind w0) (cs @ [c]))"
    using pos xs by (simp add: visits_snoc)
  with ix have "linked (ind w0) (c, a) \<Longrightarrow>
           in_range (stops w0) (ind w0 (fst c) (snd c)) \<and> in_range (stops w0) (ind w0 (fst a) (snd a))"
    unfolding indexed_def by fastforce
  from add_route_error[OF rs er this] show ?thesis .
qed

lemma init_routes_error:
  assumes "init_routes hp w1 = Inl e" "routes w1 = []" "indexed w1 interior"
  shows "e = Null_Deref \<and> (\<exists>k. \<not> hp k)"
proof -
  let ?w0 = "w1\<lparr>r_len := 0\<rparr>"
  have ix: "indexed ?w0 interior" using assms(3) by (simp add: indexed_def)
  from assms(1) have "for_each interior (visit hp) ?w0 = Inl e" by (simp add: init_routes_flat)
  then obtain ds a rest s where xs: "interior = ds @ a # rest"
    and r: "routed ?w0 (visits (ind ?w0) ds) s" and v: "visit hp a s = Inl e"
  proof (rule for_each_error[where I = "\<lambda>cs. routed ?w0 (visits (ind ?w0) cs)"])
    show "routed ?w0 (visits (ind ?w0) []) ?w0"
      using assms(2) by (simp add: visits_def routed_start)
  next
    fix ds a rest and s s' :: world
    assume "routed ?w0 (visits (ind ?w0) ds) s" "visit hp a s = Inr s'"
    then show "routed ?w0 (visits (ind ?w0) (ds @ [a])) s'"
      by (rule routed_visit[rotated])
  qed
  have "indexed ?w0 (ds @ [a])"
    using ix indexed_prefix[of ?w0 "ds @ [a]" rest] unfolding xs by simp
  from visit_error[OF r v this] show ?thesis .
qed

lemma build_graph_error:
  assumes "build_graph hp m ind0 = Inl e" "sentinel ind0"
  shows "e = Null_Deref \<and> (\<exists>k. \<not> hp k)"
proof (cases "init_stops hp m (main_init ind0)")
  case (Inl e')
  with assms(1) have "e' = e" by (simp add: build_graph_def)
  with Inl init_stops_error show ?thesis by blast
next
  case (Inr w1)
  with assms(1) have r: "init_routes hp w1 = Inl e" by (simp add: build_graph_def)
  have sb: "stops_built m ind0 w1" by (rule init_stops_result[OF Inr])
  then have "routes w1 = []" "length (stops w1) = length (open_cells m)"
    by (simp_all add: stops_built_def)
  from init_routes_error[OF r this(1)
      indexes_indexed[OF stops_built_indexes[OF sb] assms(2) this(2)]]
  show ?thesis .
qed

lemma sentinel_unset: "sentinel unset_lookup"
  by (simp add: sentinel_def unset_lookup_def)

lemma for_each_skip:
  "(\<And>a. a \<in> set xs \<Longrightarrow> body a s = Inr s) \<Longrightarrow> for_each xs body s = Inr s"
  by (induction xs) simp_all

lemmas run_builders =
  build_graph_def init_stops_def init_routes_def main_init_def MAP_SIZE_ROWS_def MAP_SIZE_COLS_def
  add_stop_def add_route_def set_h_def in_range_def Let_def upto_rec1 euclid_def new_stop_def

lemma degenerate_build:
  assumes "open_cells m = []" and "sentinel ind0"
  shows "build_graph hp m ind0 = Inr (main_init ind0)"
proof -
  let ?w0 = "main_init ind0"
  have w0: "?w0\<lparr>s_len := 0\<rparr> = ?w0" "?w0\<lparr>r_len := 0\<rparr> = ?w0" by (simp_all add: main_init_def)
  have closed: "\<And>c. c \<in> set interior \<Longrightarrow> m (fst c) (snd c) \<noteq> 0"
    using assms(1) by (auto simp: open_cells_def is_open_def filter_empty_conv)
  have "for_each interior (\<lambda>c. add_stop hp m (fst c) (snd c)) ?w0 = Inr ?w0"
    by (rule for_each_skip) (simp add: add_stop_def closed)
  then have s: "init_stops hp m ?w0 = Inr ?w0"
    by (simp add: init_stops_def init_stops_first_pass w0 Let_def) (simp add: main_init_def)
  have neg: "\<And>c. c \<in> set interior \<Longrightarrow> ind0 (fst c) (snd c) < 0"
    using assms(2) by (auto simp: sentinel_def set_interior)
  have "for_each interior (visit hp) ?w0 = Inr ?w0"
  proof (rule for_each_skip)
    fix c assume "c \<in> set interior"
    from neg[OF this] show "visit hp c ?w0 = Inr ?w0" by (simp add: visit_def main_init_def)
  qed
  then have "init_routes hp ?w0 = Inr ?w0" by (simp add: init_routes_flat w0)
  with s show ?thesis by (simp add: build_graph_def)
qed

lemmas run_search =
  find_path_def find_path_c_def select_def f_value_def expand_def relax_def main_c_def
  main_report_def print_stop_def

lemma find_one_cell:
  "\<exists>w. build_graph (memory_for 1) one_cell_grid unset_lookup = Inr w \<and>
     (\<exists>ns. find_path (stops w) (routes w) (s_len w) = Inr (True, [0], ns) \<and> stop_g (ns ! 0) = 0)"
  by (simp add: run_builders run_search memory_for_def one_cell_grid_def unset_lookup_def)

lemma dbl_max_large: "1000 < DBL_MAX"
  by (simp add: DBL_MAX_def)

lemma find_two_cell:
  "\<exists>w. build_graph (memory_for 6) two_cell_grid unset_lookup = Inr w \<and>
     (\<exists>ns. find_path (stops w) (routes w) (s_len w) = Inr (True, [1, 0], ns) \<and> stop_g (ns ! 1) = 1)"
  using dbl_max_large
  by (simp add: run_builders run_search memory_for_def two_cell_grid_def unset_lookup_def)

section \<open>Properties of the search\<close>

lemma cost_simps [simp]:
  "cost [] = 0" "cost (e # es) = route_d e + cost es" "cost (es @ fs) = cost es + cost fs"
  by (simp_all add: cost_def)

lemma walk_append:
  "walk rs a (es @ fs) b \<longleftrightarrow> (\<exists>c. walk rs a es c \<and> walk rs c fs b)"
  by (induction es arbitrary: a) auto

lemma walk_snoc:
  "walk rs a es c \<Longrightarrow> e \<in> set rs \<Longrightarrow> route_x e = c \<Longrightarrow> walk rs a (es @ [e]) (route_y e)"
  by (auto simp: walk_append)

lemma euclid_nonneg: "0 \<le> euclid a b"
  by (simp add: euclid_def)

lemma euclid_triangle: "euclid a c \<le> euclid b c + euclid a b"
proof -
  have "sqrt (((stop_row a - stop_row b) + (stop_row b - stop_row c))\<^sup>2 +
              ((stop_col a - stop_col b) + (stop_col b - stop_col c))\<^sup>2)
        \<le> sqrt ((stop_row a - stop_row b)\<^sup>2 + (stop_col a - stop_col b)\<^sup>2) +
          sqrt ((stop_row b - stop_row c)\<^sup>2 + (stop_col b - stop_col c)\<^sup>2)"
    by (rule real_sqrt_sum_squares_triangle_ineq)
  then show ?thesis by (simp add: euclid_def)
qed

lemma metric_edge:
  assumes "metric_graph ns rs" "r \<in> set rs"
  shows "in_range ns (route_x r)" "in_range ns (route_y r)" "0 \<le> route_d r" "route_d r \<le> 10"
    "hv ns (route_x r) \<le> route_d r + hv ns (route_y r)"
proof -
  from assms have d: "route_d r = euclid (ns ! nat (route_y r)) (ns ! nat (route_x r))"
    and b: "in_range ns (route_x r)" "in_range ns (route_y r)" "route_d r \<le> 10"
    by (auto simp: metric_graph_def)
  show "in_range ns (route_x r)" "in_range ns (route_y r)" "route_d r \<le> 10" by fact+
  show "0 \<le> route_d r" unfolding d by (rule euclid_nonneg)
  show "hv ns (route_x r) \<le> route_d r + hv ns (route_y r)"
    unfolding d hv_def by (rule euclid_triangle)
qed

lemma heuristic_consistent:
  assumes "metric_graph ns rs" "walk rs a es b"
  shows "hv ns a \<le> cost es + hv ns b"
  using assms(2)
proof (induction es arbitrary: a)
  case Nil
  then show ?case by simp
next
  case (Cons e es)
  then have e: "e \<in> set rs" "route_x e = a" and w: "walk rs (route_y e) es b" by simp_all
  from metric_edge(5)[OF assms(1) e(1)] Cons.IH[OF w] e(2) show ?case by simp
qed

lemma cost_nonneg:
  assumes "metric_graph ns rs" "walk rs a es b"
  shows "0 \<le> cost es"
  using assms(2)
proof (induction es arbitrary: a)
  case Nil
  then show ?case by simp
next
  case (Cons e es)
  then have e: "e \<in> set rs" and w: "walk rs (route_y e) es b" by simp_all
  from metric_edge(3)[OF assms(1) e] Cons.IH[OF w] show ?case by simp
qed

subsection \<open>The invariant\<close>

lemma search_invD:
  assumes "search_inv ns rs P s"
  shows "framed ns s" "sets_ok ns s" "unseen_inf ns s" "f_ok ns s" "tree rs s"
    "settled rs s" "relaxed rs P s" "bounded s"
  using assms by (simp_all add: search_inv_def)

lemma first_open_on_walk:
  assumes so: "sets_ok ns s" and st: "settled rs s" and rl: "relaxed rs (\<lambda>_. True) s"
    and "walk rs a es u" and "u \<notin> set (closed_set s)" and "walk rs 0 pre a"
    and "a \<in> set (closed_set s) \<or> (a \<in> set (open_set s) \<and> gv s a \<le> cost pre)"
  shows "\<exists>y es1 es2. es = es1 @ es2 \<and> y \<in> set (open_set s) \<and> walk rs y es2 u \<and>
           gv s y \<le> cost pre + cost es1"
  using assms(4-)
proof (induction es arbitrary: a pre)
  case Nil
  then have "a = u" by simp
  with Nil.prems(2,4) have "a \<in> set (open_set s)" "gv s a \<le> cost pre" by auto
  with Nil.prems(1) show ?case by (intro exI[of _ a] exI[of _ "[]"]) simp
next
  case (Cons r es)
  show ?case
  proof (cases "a \<in> set (open_set s) \<and> gv s a \<le> cost pre")
    case True
    with Cons.prems(1) show ?thesis
      by (intro exI[of _ a] exI[of _ "[]"] exI[of _ "r # es"]) simp
  next
    case False
    with Cons.prems(4) have ac: "a \<in> set (closed_set s)" by blast
    from Cons.prems(1) have r: "r \<in> set rs" "route_x r = a" and w: "walk rs (route_y r) es u"
      by simp_all
    have pw: "walk rs 0 (pre @ [r]) (route_y r)"
      using walk_snoc[OF Cons.prems(3) r(1)] r(2) by simp
    have ga: "gv s a \<le> cost pre" using st ac Cons.prems(3) by (auto simp: settled_def)
    have "route_y r \<in> set (closed_set s) \<or>
          (route_y r \<in> set (open_set s) \<and> gv s (route_y r) \<le> cost (pre @ [r]))"
    proof (cases "route_y r \<in> set (closed_set s)")
      case True
      then show ?thesis by simp
    next
      case False
      with rl r ac have "route_y r \<in> set (open_set s)" "gv s (route_y r) \<le> gv s a + route_d r"
        by (auto simp: relaxed_def)
      with ga show ?thesis by simp
    qed
    from Cons.IH[OF w Cons.prems(2) pw this]
    obtain y es1 es2 where y: "es = es1 @ es2" "y \<in> set (open_set s)" "walk rs y es2 u"
      "gv s y \<le> cost (pre @ [r]) + cost es1" by blast
    then show ?thesis
      by (intro exI[of _ y] exI[of _ "r # es1"] exI[of _ es2]) simp
  qed
qed

lemma selected_is_optimal:
  assumes mg: "metric_graph ns rs" and inv: "search_inv ns rs (\<lambda>_. True) s"
    and u: "u \<in> set (open_set s)"
    and mn: "\<And>y. y \<in> set (open_set s) \<Longrightarrow> gv s u + hv ns u \<le> gv s y + hv ns y"
    and w: "walk rs 0 es u"
  shows "gv s u \<le> cost es"
proof -
  note i = search_invD[OF inv]
  from i(2) u have uc: "u \<notin> set (closed_set s)" by (auto simp: sets_ok_def)
  from i(5) have "0 \<in> set (closed_set s) \<or> (0 \<in> set (open_set s) \<and> gv s 0 \<le> cost [])"
    by (auto simp: tree_def seen_def)
  from first_open_on_walk[OF i(2) i(6) i(7) w uc _ this]
  obtain y es1 es2 where y: "es = es1 @ es2" "y \<in> set (open_set s)" "walk rs y es2 u"
    "gv s y \<le> cost es1" by auto
  from heuristic_consistent[OF mg y(3)] have "hv ns y \<le> cost es2 + hv ns u" .
  with mn[OF y(2)] y(4) show ?thesis unfolding y(1) by simp
qed

lemma select_minimal:
  assumes "f_ok ns s" "open_set s \<noteq> []"
  shows "select s \<in> set (open_set s)"
    and "\<And>y. y \<in> set (open_set s) \<Longrightarrow> gv s (select s) + hv ns (select s) \<le> gv s y + hv ns y"
proof -
  let ?f = "f_value (nodes s)" and ?xs = "sort (open_set s)"
  from assms(2) have ne: "?xs \<noteq> []" by (metis length_sort length_0_conv)
  from arg_min_list_in[OF ne] show m: "select s \<in> set (open_set s)" by (simp add: select_def)
  have fv: "\<And>v. v \<in> set (open_set s) \<Longrightarrow> ?f v = gv s v + hv ns v"
    using assms(1) by (simp add: f_ok_def f_value_def)
  fix y assume y: "y \<in> set (open_set s)"
  have "?f (arg_min_list ?f ?xs) = Min (?f ` set ?xs)" by (rule f_arg_min_list_f[OF ne])
  moreover have "Min (?f ` set ?xs) \<le> ?f y" using y by (intro Min_le) auto
  ultimately have "?f (select s) \<le> ?f y" by (simp add: select_def)
  then show "gv s (select s) + hv ns (select s) \<le> gv s y + hv ns y"
    by (simp add: fv[OF m] fv[OF y])
qed

lemma length_closed_le:
  assumes "sets_ok ns s"
  shows "length (closed_set s) \<le> length ns"
proof -
  from assms have d: "distinct (closed_set s)" and r: "\<forall>v\<in>set (closed_set s). in_range ns v"
    by (auto simp: sets_ok_def seen_def)
  have "set (closed_set s) \<subseteq> int ` {..<length ns}"
  proof
    fix v assume "v \<in> set (closed_set s)"
    with r have "0 \<le> v" "nat v < length ns" by (auto simp: in_range_def)
    then have "v = int (nat v)" "nat v \<in> {..<length ns}" by simp_all
    then show "v \<in> int ` {..<length ns}" by (rule image_eqI)
  qed
  then have "card (set (closed_set s)) \<le> card (int ` {..<length ns})"
    by (intro card_mono) simp_all
  also have "\<dots> \<le> length ns" using card_image_le[of "{..<length ns}" int] by simp
  finally show ?thesis using d by (simp add: distinct_card)
qed

lemma search_inv_mono:
  assumes "search_inv ns rs P s"
    and "\<And>r. r \<in> set rs \<Longrightarrow> route_x r \<in> set (closed_set s) \<Longrightarrow> Q r \<Longrightarrow> P r"
  shows "search_inv ns rs Q s"
  using assms unfolding search_inv_def relaxed_def by blast

lemma close_inv:
  assumes mg: "metric_graph ns rs" and inv: "search_inv ns rs (\<lambda>_. True) s"
    and u: "u \<in> set (open_set s)"
    and mn: "\<And>y. y \<in> set (open_set s) \<Longrightarrow> gv s u + hv ns u \<le> gv s y + hv ns y"
  shows "search_inv ns rs (\<lambda>r. route_x r \<noteq> u)
           (s\<lparr>open_set := removeAll u (open_set s), closed_set := u # closed_set s\<rparr>)"
    (is "search_inv ns rs ?P ?s'")
proof -
  note i = search_invD[OF inv]
  have g: "gv ?s' = gv s" and p: "pv ?s' = pv s" by (simp_all add: gv_def pv_def fun_eq_iff)
  from i(2) u have uc: "u \<notin> set (closed_set s)" by (auto simp: sets_ok_def)
  have sn: "seen ?s' = seen s" using u by (auto simp: seen_def)
  have "framed ns ?s'" using i(1) by (simp add: framed_def)
  moreover have "sets_ok ns ?s'"
    using i(2) uc unfolding sets_ok_def sn by auto
  moreover have "unseen_inf ns ?s'" using i(3) unfolding unseen_inf_def sn g by simp
  moreover have "f_ok ns ?s'" using i(4) unfolding f_ok_def g by simp
  moreover have "tree rs ?s'" using i(5) unfolding tree_def sn g p by auto
  moreover have "settled rs ?s'"
    unfolding settled_def g
  proof (intro ballI allI impI)
    fix x es assume x: "x \<in> set (closed_set ?s')" and w: "walk rs 0 es x"
    show "gv s x \<le> cost es"
    proof (cases "x = u")
      case True
      with selected_is_optimal[OF mg inv u mn] w show ?thesis by simp
    next
      case False
      with x i(6) w show ?thesis by (auto simp: settled_def)
    qed
  qed
  moreover have "relaxed rs ?P ?s'"
    unfolding relaxed_def g
  proof (intro ballI impI)
    fix r assume r: "r \<in> set rs" "route_x r \<in> set (closed_set ?s')" "route_x r \<noteq> u"
      "route_y r \<notin> set (closed_set ?s')"
    then have "route_x r \<in> set (closed_set s)" "route_y r \<notin> set (closed_set s)" "route_y r \<noteq> u"
      by auto
    with i(7) r(1)
    show "route_y r \<in> set (open_set ?s') \<and> gv s (route_y r) \<le> gv s (route_x r) + route_d r"
      by (auto simp: relaxed_def)
  qed
  moreover have "bounded ?s'"
    using i(8) u unfolding bounded_def g by (auto simp: algebra_simps) 
  ultimately show ?thesis by (simp add: search_inv_def)
qed

lemma nat_eq_in_range:
  assumes "in_range ns v" "in_range ns y"
  shows "nat y = nat v \<longleftrightarrow> y = v" and "nat v = nat y \<longleftrightarrow> y = v"
  using assms by (auto simp: in_range_def)

lemma in_range_nat: "in_range xs i \<Longrightarrow> nat i < length xs"
  by (auto simp: in_range_def)

lemma relax_inv:
  assumes mg: "metric_graph ns rs" and inv: "search_inv ns rs P s"
    and u: "u \<in> set (closed_set s)" and t: "in_range rs t" and x: "route_x (rs ! nat t) = u"
    and rx: "relax rs u t s = Inr s'"
  shows "search_inv ns rs (\<lambda>r. P r \<or> r = rs ! nat t) s' \<and> closed_set s' = closed_set s"
proof -
  note i = search_invD[OF inv]
  let ?r = "rs ! nat t"
  let ?v = "route_y ?r" and ?d = "route_d ?r"
  let ?g' = "gv s u + ?d"
  let ?Q = "\<lambda>r. P r \<or> r = ?r"
  from t have "nat t < length rs" by (rule in_range_nat)
  then have rm: "?r \<in> set rs" by (rule nth_mem)
  note e = metric_edge[OF mg rm]
  from i(1) have ln: "length (nodes s) = length ns" by (simp add: framed_def)
  from e(2) ln have vr: "in_range (nodes s) ?v" by (simp add: in_range_def)
  from i(2) u have ur: "in_range ns u" by (auto simp: sets_ok_def seen_def)
  from i(8) u have gu: "0 \<le> gv s u" "gv s u + 10 \<le> 10 * real (length (closed_set s))"
    by (auto simp: bounded_def)
  from length_closed_le[OF i(2)] mg have "real (length (closed_set s)) \<le> 64"
    by (simp add: metric_graph_def)
  with gu e(4) have fin: "?g' < DBL_MAX" using dbl_max_large by linarith
  have g'0: "0 \<le> ?g'" "?g' \<le> 10 * real (length (closed_set s))" using gu e(3,4) by simp_all
  show ?thesis
  proof (cases "?v \<in> set (closed_set s)")
    case True
    with rx t vr have "s' = s" by (simp add: relax_def Let_def)
    moreover have "relaxed rs ?Q s" using i(7) True by (auto simp: relaxed_def)
    ultimately show ?thesis using i by (simp add: search_inv_def)
  next
    case vc: False
    show ?thesis
    proof (cases "?g' < gv s ?v")
      case False
      with rx t vr vc have s': "s' = s" by (simp add: relax_def Let_def gv_def)
      from False fin have "gv s ?v \<noteq> DBL_MAX" by simp
      with i(3) e(2) have "?v \<in> seen s" by (auto simp: unseen_inf_def)
      with vc have "?v \<in> set (open_set s)" by (simp add: seen_def)
      with False x have "relaxed rs ?Q s" using i(7) by (auto simp: relaxed_def)
      with s' i show ?thesis by (simp add: search_inv_def)
    next
      case True
      have hh: "stop_h (nodes s ! nat ?v) = Some (hv ns ?v)"
        using i(1) mg in_range_nat[OF e(2)] by (simp add: framed_def metric_graph_def hv_def)
      let ?X = "(nodes s ! nat ?v)\<lparr>stop_g := ?g', stop_from := u, stop_f := Some (?g' + hv ns ?v)\<rparr>"
      from rx t vr vc True hh
      have s': "s' = s\<lparr>nodes := (nodes s)[nat ?v := ?X], open_set := List.insert ?v (open_set s)\<rparr>"
        by (simp add: relax_def Let_def gv_def)
      have cl: "closed_set s' = closed_set s" and op: "set (open_set s') = insert ?v (set (open_set s))"
        by (simp_all add: s')
      have sn: "seen s' = insert ?v (seen s)" by (auto simp: seen_def cl op)
      have nv: "nat ?v < length (nodes s)" using vr by (rule in_range_nat)
      have g: "gv s' y = (if y = ?v then ?g' else gv s y)" if "in_range ns y" for y
        using that nv nat_eq_in_range[OF e(2) that] by (simp add: gv_def s' nth_list_update)
      have p: "pv s' y = (if y = ?v then u else pv s y)" if "in_range ns y" for y
        using that nv nat_eq_in_range[OF e(2) that] by (simp add: pv_def s' nth_list_update)
      have sr: "\<And>y. y \<in> seen s \<Longrightarrow> in_range ns y" using i(2) by (simp add: sets_ok_def)
      have uv: "u \<noteq> ?v" using u vc by auto
      have v0: "?v \<noteq> 0"
      proof
        assume z: "?v = 0"
        with i(5) have "gv s ?v = 0" by (simp add: tree_def)
        with True g'0 show False by simp
      qed
      have "framed ns s'"
        using i(1) nv unfolding framed_def by (auto simp: s' nth_list_update)
      moreover have "sets_ok ns s'"
        using i(2) vc e(2) unfolding sets_ok_def sn by (auto simp: cl op)
      moreover have "unseen_inf ns s'"
        using i(3) unfolding unseen_inf_def sn by (auto simp: g)
      moreover have "f_ok ns s'"
        unfolding f_ok_def op
      proof
        fix y assume y: "y \<in> insert ?v (set (open_set s))"
        then have yr: "in_range ns y" using e(2) sr by (auto simp: seen_def)
        show "stop_f (nodes s' ! nat y) = Some (gv s' y + hv ns y)"
        proof (cases "y = ?v")
          case True
          have a: "gv s' y = ?g'" using g[OF yr] True by simp
          have b: "stop_f (nodes s' ! nat y) = Some (?g' + hv ns ?v)"
            using nv True by (simp add: s')
          show ?thesis unfolding a b using True by simp
        next
          case False
          with y i(4) have c: "stop_f (nodes s ! nat y) = Some (gv s y + hv ns y)"
            by (auto simp: f_ok_def)
          have a: "gv s' y = gv s y" using g[OF yr] False by simp
          have b: "nodes s' ! nat y = nodes s ! nat y"
            using False nat_eq_in_range(2)[OF e(2) yr] by (simp add: s')
          show ?thesis unfolding a b by (rule c)
        qed
      qed
      moreover have "tree rs s'"
        unfolding tree_def sn cl
      proof (intro conjI ballI impI)
        from i(5) have z: "0 \<in> seen s" "gv s 0 = 0" "pv s 0 = - 1" by (simp_all add: tree_def)
        from z(1) show "0 \<in> insert ?v (seen s)" by simp
        from z v0 sr[OF z(1)] show "gv s' 0 = 0" "pv s' 0 = - 1" by (simp_all add: g p)
      next
        fix y assume y: "y \<in> insert ?v (seen s)" "y \<noteq> 0"
        then have yr: "in_range ns y" using e(2) sr by auto
        {
          assume "y = ?v"
          then have "pv s' y = u" "gv s' y = gv s' u + ?d"
            using uv ur yr by (simp_all add: g p)
        } note new = this
        {
          assume ny: "y \<noteq> ?v"
          with y have ys: "y \<in> seen s" by simp
          with i(5) y(2) have pc: "pv s y \<in> set (closed_set s)"
            and ex: "\<exists>r\<in>set rs. route_x r = pv s y \<and> route_y r = y \<and> gv s y = gv s (pv s y) + route_d r"
            by (auto simp: tree_def)
          from pc vc have "pv s y \<noteq> ?v" by auto
          moreover from pc have "in_range ns (pv s y)" using sr by (simp add: seen_def)
          ultimately have "pv s' y = pv s y" "gv s' y = gv s y" "gv s' (pv s y) = gv s (pv s y)"
            using ny yr by (simp_all add: g p)
          with pc ex have "pv s' y \<in> set (closed_set s)"
            "\<exists>r\<in>set rs. route_x r = pv s' y \<and> route_y r = y \<and> gv s' y = gv s' (pv s' y) + route_d r"
            by simp_all
        } note old = this
        show "pv s' y \<in> set (closed_set s)" using new(1) old(1) u by (cases "y = ?v") simp_all
        show "\<exists>r\<in>set rs. route_x r = pv s' y \<and> route_y r = y \<and> gv s' y = gv s' (pv s' y) + route_d r"
        proof (cases "y = ?v")
          case True
          with new rm x show ?thesis by (intro bexI[of _ ?r]) simp_all
        next
          case False
          with old(2) show ?thesis .
        qed
      qed
      moreover have "settled rs s'"
        unfolding settled_def cl
      proof (intro ballI allI impI)
        fix c es assume c: "c \<in> set (closed_set s)" and w: "walk rs 0 es c"
        from c vc have "c \<noteq> ?v" by auto
        moreover from c have "in_range ns c" using sr by (simp add: seen_def)
        ultimately have "gv s' c = gv s c" by (simp add: g)
        with i(6) c w show "gv s' c \<le> cost es" by (simp add: settled_def)
      qed
      moreover have "relaxed rs ?Q s'"
        unfolding relaxed_def cl
      proof (intro ballI impI)
        fix r assume r: "r \<in> set rs" "route_x r \<in> set (closed_set s)" "P r \<or> r = ?r"
          "route_y r \<notin> set (closed_set s)"
        from r(2) vc have xv: "route_x r \<noteq> ?v" by auto
        from r(2) have xr: "in_range ns (route_x r)" using sr by (simp add: seen_def)
        have yr: "in_range ns (route_y r)" using metric_edge(2)[OF mg r(1)] .
        have gx: "gv s' (route_x r) = gv s (route_x r)" using xv xr by (simp add: g)
        show "route_y r \<in> set (open_set s') \<and> gv s' (route_y r) \<le> gv s' (route_x r) + route_d r"
        proof (cases "route_y r = ?v")
          case yv: True
          show ?thesis
          proof (cases "r = ?r")
            case True
            then show ?thesis using x uv ur e(2) by (simp add: op g)
          next
            case False
            with r(3) have "P r" by simp
            with i(7) r have "gv s (route_y r) \<le> gv s (route_x r) + route_d r"
              by (auto simp: relaxed_def)
            with yv True show ?thesis by (simp add: op g[OF e(2)] gx)
          qed
        next
          case ny: False
          have "P r"
          proof (rule ccontr)
            assume "\<not> P r"
            with r(3) have "r = ?r" by simp
            with ny show False by simp
          qed
          with i(7) r have "route_y r \<in> set (open_set s)"
            "gv s (route_y r) \<le> gv s (route_x r) + route_d r"
            by (auto simp: relaxed_def)
          with ny show ?thesis by (simp add: op g[OF yr] gx)
        qed
      qed
      moreover have "bounded s'"
        unfolding bounded_def cl op
      proof (intro conjI ballI)
        fix y assume y: "y \<in> insert ?v (set (open_set s))"
        then have yr: "in_range ns y" using e(2) sr by (auto simp: seen_def)
        show "0 \<le> gv s' y" "gv s' y \<le> 10 * real (length (closed_set s))"
          using y i(8) g'0 by (auto simp: g[OF yr] bounded_def)
      next
        fix y assume y: "y \<in> set (closed_set s)"
        then have "in_range ns y" "y \<noteq> ?v" using sr vc by (auto simp: seen_def)
        then have "gv s' y = gv s y" by (simp add: g)
        with y i(8) show "0 \<le> gv s' y" "gv s' y + 10 \<le> 10 * real (length (closed_set s))"
          by (auto simp: bounded_def)
      qed
      ultimately show ?thesis using cl by (simp add: search_inv_def)
    qed
  qed
qed

lemma out_edges_member:
  "t \<in> set (out_edges rs u) \<longleftrightarrow> in_range rs t \<and> route_x (rs ! nat t) = int u"
proof
  assume "t \<in> set (out_edges rs u)"
  then obtain k where "t = int k" "k < length rs" "route_x (rs ! k) = int u"
    by (auto simp: out_edges_def)
  then show "in_range rs t \<and> route_x (rs ! nat t) = int u" by (simp add: in_range_def)
next
  assume a: "in_range rs t \<and> route_x (rs ! nat t) = int u"
  then have k: "nat t < length rs" "t = int (nat t)" by (auto simp: in_range_def)
  with a have "nat t \<in> set (filter (\<lambda>k. route_x (rs ! k) = int u) [0..<length rs])" by simp
  then have "int (nat t) \<in> set (out_edges rs u)"
    unfolding out_edges_def set_map by (rule imageI)
  with k(2) show "t \<in> set (out_edges rs u)" by simp
qed

lemma expand_inv:
  assumes mg: "metric_graph ns rs" and inv: "search_inv ns rs (\<lambda>_. True) s"
    and u: "u \<in> set (open_set s)"
    and mn: "\<And>y. y \<in> set (open_set s) \<Longrightarrow> gv s u + hv ns u \<le> gv s y + hv ns y"
    and ex: "expand rs u s = Inr s'"
  shows "search_inv ns rs (\<lambda>_. True) s'"
proof -
  let ?s1 = "s\<lparr>open_set := removeAll u (open_set s), closed_set := u # closed_set s\<rparr>"
  let ?P = "\<lambda>ts r. route_x r \<noteq> u \<or> r \<in> (\<lambda>t. rs ! nat t) ` set ts"
  note i = search_invD[OF inv]
  from i(2) u have ur: "in_range ns u" by (auto simp: sets_ok_def seen_def)
  then have nu: "nat u < length ns" "int (nat u) = u" and u0: "0 \<le> u"
    by (auto simp: in_range_def)
  have edges: "stop_n (nodes s ! nat u) = out_edges rs (nat u)"
    using i(1) mg nu(1) by (simp add: framed_def metric_graph_def)
  from ex have fe: "for_each (out_edges rs (nat u)) (relax rs u) ?s1 = Inr s'"
    by (simp add: expand_def edges)
  have "search_inv ns rs (?P (out_edges rs (nat u))) s' \<and> closed_set s' = closed_set ?s1"
  proof (rule for_each_invariant[OF fe,
        where I = "\<lambda>ts s'. search_inv ns rs (?P ts) s' \<and> closed_set s' = closed_set ?s1"])
    from close_inv[OF mg inv u mn]
    show "search_inv ns rs (?P []) ?s1 \<and> closed_set ?s1 = closed_set ?s1" by simp
  next
    fix ds a rest and s2 s3 :: search
    assume xs: "out_edges rs (nat u) = ds @ a # rest"
      and I: "search_inv ns rs (?P ds) s2 \<and> closed_set s2 = closed_set ?s1"
      and rx: "relax rs u a s2 = Inr s3"
    have "a \<in> set (out_edges rs (nat u))" unfolding xs by simp
    then have a: "in_range rs a" "route_x (rs ! nat a) = u"
      using out_edges_member[of a rs "nat u"] u0 by auto
    from I have uc: "u \<in> set (closed_set s2)" by simp
    from relax_inv[OF mg conjunct1[OF I] uc a rx]
    have r: "search_inv ns rs (\<lambda>r. ?P ds r \<or> r = rs ! nat a) s3"
      and c: "closed_set s3 = closed_set s2" by simp_all
    have "search_inv ns rs (?P (ds @ [a])) s3"
      by (rule search_inv_mono[OF r]) auto
    with c I show "search_inv ns rs (?P (ds @ [a])) s3 \<and> closed_set s3 = closed_set ?s1" by simp
  qed
  then have r: "search_inv ns rs (?P (out_edges rs (nat u))) s'" ..
  show ?thesis
  proof (rule search_inv_mono[OF r])
    fix r assume r: "r \<in> set rs"
    show "?P (out_edges rs (nat u)) r"
    proof (cases "route_x r = u")
      case False
      then show ?thesis by simp
    next
      case True
      from r obtain k where k: "k < length rs" "rs ! k = r" by (auto simp: in_set_conv_nth)
      with True have "int k \<in> set (out_edges rs (nat u))"
        using out_edges_member[of "int k" rs "nat u"] u0 by (auto simp: in_range_def)
      then have "rs ! nat (int k) \<in> (\<lambda>t. rs ! nat t) ` set (out_edges rs (nat u))" by (rule imageI)
      with k(2) show ?thesis by simp
    qed
  qed
qed

lemma init_inv:
  assumes mg: "metric_graph ns rs" and r0: "in_range ns 0" and h: "stop_h (ns ! 0) = Some h"
  shows "search_inv ns rs (\<lambda>_. True)
           \<lparr>nodes = ns[0 := (ns ! 0)\<lparr>stop_g := 0, stop_f := Some h\<rparr>], open_set = [0], closed_set = []\<rparr>"
    (is "search_inv ns rs _ ?s")
proof -
  from r0 have n0: "0 < length ns" by (simp add: in_range_def)
  from mg have init: "\<And>u. u < length ns \<Longrightarrow> stop_g (ns ! u) = DBL_MAX \<and> stop_from (ns ! u) = - 1
      \<and> stop_h (ns ! u) = Some (euclid (last ns) (ns ! u))"
    by (simp add: metric_graph_def)
  from init[OF n0] h have hh: "h = hv ns 0" by (simp add: hv_def)
  have g: "gv ?s y = (if y = 0 then 0 else stop_g (ns ! nat y))" if "in_range ns y" for y
    using that n0 by (auto simp: gv_def in_range_def nth_list_update)
  have "framed ns ?s" using n0 by (auto simp: framed_def nth_list_update)
  moreover have "sets_ok ns ?s" using r0 by (simp add: sets_ok_def seen_def)
  moreover have "unseen_inf ns ?s"
    unfolding unseen_inf_def using init by (auto simp: g seen_def in_range_def)
  moreover have "f_ok ns ?s" using n0 by (simp add: f_ok_def g[OF r0] hh[symmetric])
  moreover have "tree rs ?s" using n0 init[OF n0] by (simp add: tree_def seen_def g[OF r0] pv_def)
  moreover have "settled rs ?s" by (simp add: settled_def)
  moreover have "relaxed rs (\<lambda>_. True) ?s" by (simp add: relaxed_def)
  moreover have "bounded ?s" by (simp add: bounded_def g[OF r0])
  ultimately show ?thesis by (simp add: search_inv_def)
qed

lemma search_loop_inv:
  assumes mg: "metric_graph ns rs" and inv: "search_inv ns rs (\<lambda>_. True) s"
    and run: "search_loop k rs goal s = Inr (True, s')"
  shows "search_inv ns rs (\<lambda>_. True) s' \<and> open_set s' \<noteq> [] \<and> select s' = goal"
  using inv run
proof (induction k arbitrary: s)
  case 0
  then show ?case by simp
next
  case (Suc k)
  from Suc.prems(2) have ne: "open_set s \<noteq> []" by (auto split: if_splits)
  note sel = select_minimal[OF search_invD(4)[OF Suc.prems(1)] ne]
  show ?case
  proof (cases "select s = goal")
    case True
    with Suc.prems ne show ?thesis by (simp add: Let_def)
  next
    case False
    with Suc.prems(2) ne obtain s1 where e: "expand rs (select s) s = Inr s1"
      and r: "search_loop k rs goal s1 = Inr (True, s')"
      by (auto simp: Let_def split: sum.splits)
    from expand_inv[OF mg Suc.prems(1) sel e] have "search_inv ns rs (\<lambda>_. True) s1" .
    from Suc.IH[OF this r] show ?thesis .
  qed
qed

lemma trace_back_walk:
  assumes tr: "tree rs s" and so: "sets_ok ns s"
    and "v \<in> seen s" and "trace_back k (nodes s) v = Inr p"
  shows "\<exists>es. walk rs 0 es v \<and> cost es = gv s v \<and> rev p = map route_x es @ [v]"
  using assms(3,4)
proof (induction k arbitrary: v p)
  case 0
  then show ?case by simp
next
  case (Suc k)
  show ?case
  proof (cases "stop_from (nodes s ! nat v) = - 1")
    case True
    have "v = 0"
    proof (rule ccontr)
      assume "v \<noteq> 0"
      with tr Suc.prems(1) have "pv s v \<in> set (closed_set s)" by (auto simp: tree_def)
      with so have "in_range ns (pv s v)" by (simp add: sets_ok_def seen_def)
      with True show False by (simp add: pv_def in_range_def)
    qed
    moreover from True Suc.prems(2) have "p = [v]" by (auto split: if_splits)
    moreover from tr have "gv s 0 = 0" by (simp add: tree_def)
    ultimately show ?thesis by (intro exI[of _ "[]"]) simp
  next
    case False
    with Suc.prems(2) obtain p' where p': "trace_back k (nodes s) (pv s v) = Inr p'"
      and p: "p = v # p'"
      by (auto simp: pv_def split: if_splits sum.splits)
    from tr have "pv s 0 = - 1" by (simp add: tree_def)
    with False have v0: "v \<noteq> 0" by (auto simp: pv_def)
    with tr Suc.prems(1) obtain r where pc: "pv s v \<in> set (closed_set s)"
      and r: "r \<in> set rs" "route_x r = pv s v" "route_y r = v" "gv s v = gv s (pv s v) + route_d r"
      by (auto simp: tree_def)
    from pc have "pv s v \<in> seen s" by (simp add: seen_def)
    from Suc.IH[OF this p'] obtain es where es: "walk rs 0 es (pv s v)" "cost es = gv s (pv s v)"
      "rev p' = map route_x es @ [pv s v]" by blast
    from walk_snoc[OF es(1) r(1)] r have "walk rs 0 (es @ [r]) v" by simp
    moreover have "cost (es @ [r]) = gv s v" using es(2) r(4) by simp
    moreover have "rev p = map route_x (es @ [r]) @ [v]" using es(3) r(2) by (simp add: p)
    ultimately show ?thesis by blast
  qed
qed

subsection \<open>The built graph is what the search needs\<close>

lemma length_interior: "length interior = 64"
  by (simp add: interior_def MAP_SIZE_ROWS_def MAP_SIZE_COLS_def)

lemma length_open_cells: "length (open_cells m) \<le> 64"
  using length_filter_le[of "is_open m" interior] by (simp add: open_cells_def length_interior)

lemma euclid_coords:
  "stop_row a = stop_row a' \<Longrightarrow> stop_col a = stop_col a' \<Longrightarrow>
   stop_row b = stop_row b' \<Longrightarrow> stop_col b = stop_col b' \<Longrightarrow> euclid a b = euclid a' b'"
  by (simp add: euclid_def)

lemma built_edge:
  assumes gb: "graph_built m ind0 w" and sn: "sentinel ind0" and r: "r \<in> set (routes w)"
  obtains a b ta tb where "a \<in> set (open_cells m)" "b \<in> set (open_cells m)" "a \<noteq> b"
    "\<bar>fst a - fst b\<bar> \<le> 1" "\<bar>snd a - snd b\<bar> \<le> 1"
    "ta < length (open_cells m)" "open_cells m ! ta = a" "route_x r = int ta"
    "tb < length (open_cells m)" "open_cells m ! tb = b" "route_y r = int tb"
    "route_d r = euclid (node_of m b) (node_of m a)"
proof -
  let ?os = "open_cells m" and ?ix = "ind w"
  let ?ps = "filter (linked ?ix) (visits ?ix interior)"
  note ix = graph_built_indexes[OF gb]
  from r obtain q where q: "q \<in> set ?ps" and rq: "r = mk_route (map (node_of m) ?os) ?ix q"
    by (auto simp: graph_built_routes(1)[OF gb])
  let ?a = "fst q" and ?b = "snd q"
  from q have v: "?a \<in> set interior" "?ix (fst ?a) (snd ?a) \<ge> 0" "?b \<in> set (nbrs ?a)"
    and lk: "?b \<noteq> ?a" "?ix (fst ?b) (snd ?b) \<ge> 0"
    by (simp_all add: set_visits linked_def)
  from v(1) have ab: "1 \<le> fst ?a" "fst ?a \<le> MAP_SIZE_ROWS - 2" "1 \<le> snd ?a" "snd ?a \<le> MAP_SIZE_COLS - 2"
    by (simp_all add: set_interior)
  from v(3) have bb: "\<bar>fst ?b - fst ?a\<bar> \<le> 1" "\<bar>snd ?b - snd ?a\<bar> \<le> 1" by (simp_all add: set_nbrs)
  have ao: "?a \<in> set ?os"
    by (rule indexes_nonneg[OF ix sn]) (use ab v(2) in auto)
  have bo: "?b \<in> set ?os"
    by (rule indexes_nonneg[OF ix sn]) (use ab bb lk(2) in auto)
  from indexes_open[OF ix ao] obtain ta
    where ta: "ta < length ?os" "?os ! ta = ?a" "?ix (fst ?a) (snd ?a) = int ta" by blast
  from indexes_open[OF ix bo] obtain tb
    where tb: "tb < length ?os" "?os ! tb = ?b" "?ix (fst ?b) (snd ?b) = int tb" by blast
  have "route_x r = int ta" "route_y r = int tb"
    "route_d r = euclid (node_of m ?b) (node_of m ?a)"
    using ta tb by (simp_all add: rq mk_route_def)
  with ao bo lk(1) bb ta tb that[of ?a ?b ta tb] show thesis
    by (simp add: abs_minus_commute)
qed

lemma built_metric:
  assumes gb: "graph_built m ind0 w" and sn: "sentinel ind0"
  shows "metric_graph (stops w) (routes w)"
proof -
  let ?os = "open_cells m" and ?ns = "stops w"
  have len: "length ?ns = length ?os" by (rule graph_built_routes(3)[OF gb])
  note st = graph_built_stop[OF gb]
  have rc: "stop_row (?ns ! u) = of_int (fst (?os ! u))" "stop_col (?ns ! u) = of_int (snd (?os ! u))"
    if "u < length ?os" for u
    using st[OF that] by simp_all
  have nodes: "stop_n (?ns ! u) = out_edges (routes w) u \<and>
        stop_h (?ns ! u) = Some (euclid (last ?ns) (?ns ! u)) \<and>
        stop_g (?ns ! u) = DBL_MAX \<and> stop_from (?ns ! u) = - 1" if u: "u < length ?ns" for u
  proof -
    from u len have uo: "u < length ?os" by simp
    then have ne: "?ns \<noteq> []" "?os \<noteq> []" using len by auto
    define k where "k = length ?os - 1"
    have k: "k < length ?os" using ne(2) by (simp add: k_def)
    have l: "last ?ns = ?ns ! k" using ne(1) len by (simp add: last_conv_nth k_def)
    have lo: "last ?os = ?os ! k" using ne(2) by (simp add: last_conv_nth k_def)
    note g = rc[OF k]
    have "euclid (goal_stop m) (new_stop (fst (?os ! u)) (snd (?os ! u))) = euclid (last ?ns) (?ns ! u)"
      unfolding l goal_stop_def lo
      by (rule euclid_coords) (simp_all add: g rc[OF uo] new_stop_def)
    then show ?thesis by (simp add: st[OF uo])
  qed
  have edges: "in_range ?ns (route_x r) \<and> in_range ?ns (route_y r) \<and>
        route_d r = euclid (?ns ! nat (route_y r)) (?ns ! nat (route_x r)) \<and> route_d r \<le> 10"
    if r: "r \<in> set (routes w)" for r
  proof -
    from built_edge[OF gb sn r] obtain a b ta tb where
      e: "a \<noteq> b" "\<bar>fst a - fst b\<bar> \<le> 1" "\<bar>snd a - snd b\<bar> \<le> 1"
      "ta < length ?os" "?os ! ta = a" "route_x r = int ta"
      "tb < length ?os" "?os ! tb = b" "route_y r = int tb"
      "route_d r = euclid (node_of m b) (node_of m a)" by metis
    have d: "route_d r = euclid (?ns ! tb) (?ns ! ta)"
      unfolding e(10) by (rule euclid_coords) (simp_all add: rc[OF e(4)] rc[OF e(7)] e(5,8))
    have "route_d r = (if fst a = fst b \<or> snd a = snd b then 1 else sqrt 2)"
      unfolding e(10) euclid_def using unit_step_distance[of "fst a" "fst b" "snd a" "snd b"] e(1,2,3)
      by (simp add: prod_eq_iff)
    moreover have "sqrt 2 \<le> 10" by (rule real_le_lsqrt) simp_all
    ultimately have "route_d r \<le> 10" by (simp split: if_splits)
    with d e(4,6,7,9) len show ?thesis by (simp add: in_range_def)
  qed
  have "length ?ns \<le> 64" using len length_open_cells[of m] by simp
  moreover have "\<forall>u<length ?ns. stop_n (?ns ! u) = out_edges (routes w) u \<and>
        stop_h (?ns ! u) = Some (euclid (last ?ns) (?ns ! u)) \<and>
        stop_g (?ns ! u) = DBL_MAX \<and> stop_from (?ns ! u) = - 1"
    using nodes by blast
  moreover have "\<forall>r\<in>set (routes w). in_range ?ns (route_x r) \<and> in_range ?ns (route_y r) \<and>
        route_d r = euclid (?ns ! nat (route_y r)) (?ns ! nat (route_x r)) \<and> route_d r \<le> 10"
    using edges by blast
  ultimately show ?thesis unfolding metric_graph_def by (simp only: simp_thms)
qed

lemma find_path_success:
  assumes "find_path sts rs n = Inr (True, p, ns)"
  obtains h s where "in_range sts 0" "stop_h (sts ! 0) = Some h"
    "search_loop (Suc (length sts)) rs (n - 1)
       \<lparr>nodes = sts[0 := (sts ! 0)\<lparr>stop_g := 0, stop_f := Some h\<rparr>], open_set = [0], closed_set = []\<rparr>
     = Inr (True, s)"
    "trace_back (length sts) (nodes s) (n - 1) = Inr p" "ns = nodes s"
  using assms
  by (auto simp: find_path_def Let_def split: if_splits option.splits sum.splits prod.splits)

subsection \<open>The search returns\<close>

lemma distinct_in_range_length:
  assumes "distinct xs" "\<forall>v\<in>set xs. in_range ns v"
  shows "length xs \<le> length ns"
proof -
  have "set xs \<subseteq> int ` {..<length ns}"
  proof
    fix v assume "v \<in> set xs"
    with assms(2) have "0 \<le> v" "nat v < length ns" by (auto simp: in_range_def)
    then have "v = int (nat v)" "nat v \<in> {..<length ns}" by simp_all
    then show "v \<in> int ` {..<length ns}" by (rule image_eqI)
  qed
  then have "card (set xs) \<le> card (int ` {..<length ns})"
    by (intro card_mono) simp_all
  also have "\<dots> \<le> length ns" using card_image_le[of "{..<length ns}" int] by simp
  finally show ?thesis using assms(1) by (simp add: distinct_card)
qed

lemma open_leaves_room:
  assumes "sets_ok ns s" "v \<in> set (open_set s)"
  shows "length (closed_set s) < length ns"
proof -
  from assms have "distinct (v # closed_set s)" "\<forall>y\<in>set (v # closed_set s). in_range ns y"
    by (auto simp: sets_ok_def seen_def)
  from distinct_in_range_length[OF this] show ?thesis by simp
qed

lemma relax_succeeds:
  assumes mg: "metric_graph ns rs" and inv: "search_inv ns rs P s"
    and t: "in_range rs t"
  shows "\<exists>s'. relax rs u t s = Inr s'"
proof -
  note i = search_invD[OF inv]
  let ?r = "rs ! nat t"
  from t have "nat t < length rs" by (rule in_range_nat)
  then have rm: "?r \<in> set rs" by (rule nth_mem)
  note e = metric_edge[OF mg rm]
  from i(1) have ln: "length (nodes s) = length ns" by (simp add: framed_def)
  from e(2) ln have vr: "in_range (nodes s) (route_y ?r)" by (simp add: in_range_def)
  have "stop_h (nodes s ! nat (route_y ?r)) = Some (hv ns (route_y ?r))"
    using i(1) mg in_range_nat[OF e(2)] by (simp add: framed_def metric_graph_def hv_def)
  with t vr show ?thesis by (simp add: relax_def Let_def)
qed

lemma relax_ranked:
  assumes inv: "search_inv ns rs P s" and rk: "ranked s" and rx: "relax rs u t s = Inr s'"
  shows "ranked s'"
proof -
  note i = search_invD[OF inv]
  let ?v = "route_y (rs ! nat t)"
  from rx have "s' = s \<or> (?v \<notin> set (closed_set s) \<and> in_range (nodes s) ?v \<and>
      closed_set s' = closed_set s \<and>
      (\<exists>X. nodes s' = (nodes s)[nat ?v := X]))"
    by (auto simp: relax_def Let_def split: if_splits option.splits)
  then show ?thesis
  proof
    assume "s' = s"
    with rk show ?thesis by simp
  next
    assume a: "?v \<notin> set (closed_set s) \<and> in_range (nodes s) ?v \<and>
      closed_set s' = closed_set s \<and> (\<exists>X. nodes s' = (nodes s)[nat ?v := X])"
    then obtain X where X: "nodes s' = (nodes s)[nat ?v := X]" by blast
    from i(1) have ln: "length (nodes s) = length ns" by (simp add: framed_def)
    from a ln have vr: "in_range ns ?v" by (simp add: in_range_def)
    show ?thesis
      unfolding ranked_def
    proof (intro allI impI)
      fix xs c ys assume d: "closed_set s' = xs @ c # ys" and c0: "c \<noteq> 0"
      with a have d': "closed_set s = xs @ c # ys" by simp
      then have cc: "c \<in> set (closed_set s)" by simp
      with a have "c \<noteq> ?v" by auto
      moreover from cc i(2) have "in_range ns c" by (simp add: sets_ok_def seen_def)
      ultimately have "nat ?v \<noteq> nat c" using nat_eq_in_range(2)[OF vr] by simp
      then have "pv s' c = pv s c" by (simp add: pv_def X)
      with rk d' c0 show "pv s' c \<in> set ys" by (simp add: ranked_def)
    qed
  qed
qed

lemma close_ranked:
  assumes inv: "search_inv ns rs P s" and rk: "ranked s" and u: "u \<in> set (open_set s)"
  shows "ranked (s\<lparr>open_set := removeAll u (open_set s), closed_set := u # closed_set s\<rparr>)"
    (is "ranked ?s'")
  unfolding ranked_def
proof (intro allI impI)
  note i = search_invD[OF inv]
  have p: "pv ?s' = pv s" by (simp add: pv_def fun_eq_iff)
  fix xs c ys assume d: "closed_set ?s' = xs @ c # ys" and c0: "c \<noteq> 0"
  show "pv ?s' c \<in> set ys"
  proof (cases xs)
    case Nil
    with d have cu: "c = u" "ys = closed_set s" by simp_all
    from i(5) u c0 cu(1) have "pv s u \<in> set (closed_set s)"
      by (auto simp: tree_def seen_def)
    then show ?thesis unfolding p cu .
  next
    case (Cons x xs')
    with d have "closed_set s = xs' @ c # ys" by simp
    with rk c0 have "pv s c \<in> set ys" unfolding ranked_def by blast
    then show ?thesis unfolding p .
  qed
qed

lemma expand_succeeds:
  assumes mg: "metric_graph ns rs" and inv: "search_inv ns rs (\<lambda>_. True) s" and rk: "ranked s"
    and u: "u \<in> set (open_set s)"
    and mn: "\<And>y. y \<in> set (open_set s) \<Longrightarrow> gv s u + hv ns u \<le> gv s y + hv ns y"
  shows "\<exists>s'. expand rs u s = Inr s' \<and> search_inv ns rs (\<lambda>_. True) s' \<and> ranked s' \<and>
           closed_set s' = u # closed_set s"
proof -
  let ?s1 = "s\<lparr>open_set := removeAll u (open_set s), closed_set := u # closed_set s\<rparr>"
  let ?P = "\<lambda>ts r. route_x r \<noteq> u \<or> r \<in> (\<lambda>t. rs ! nat t) ` set ts"
  let ?I = "\<lambda>ts s'. search_inv ns rs (?P ts) s' \<and> closed_set s' = closed_set ?s1 \<and> ranked s'"
  note i = search_invD[OF inv]
  from i(2) u have ur: "in_range ns u" by (auto simp: sets_ok_def seen_def)
  then have nu: "nat u < length ns" and u0: "0 \<le> u" by (auto simp: in_range_def)
  have edges: "stop_n (nodes s ! nat u) = out_edges rs (nat u)"
    using i(1) mg nu by (simp add: framed_def metric_graph_def)
  have "\<exists>s'. for_each (out_edges rs (nat u)) (relax rs u) ?s1 = Inr s' \<and> ?I (out_edges rs (nat u)) s'"
  proof (rule for_each_succeeds[where I = ?I])
    from close_inv[OF mg inv u mn] close_ranked[OF inv rk u]
    show "?I [] ?s1" by simp
  next
    fix ds a rest and s2 :: search
    assume xs: "out_edges rs (nat u) = ds @ a # rest" and I: "?I ds s2"
    have "a \<in> set (out_edges rs (nat u))" unfolding xs by simp
    then have a: "in_range rs a" "route_x (rs ! nat a) = u"
      using out_edges_member[of a rs "nat u"] u0 by auto
    from I have inv2: "search_inv ns rs (?P ds) s2" and uc: "u \<in> set (closed_set s2)"
      and rk2: "ranked s2" by simp_all
    from relax_succeeds[OF mg inv2 a(1)] obtain s3 where rx: "relax rs u a s2 = Inr s3" by blast
    from relax_inv[OF mg inv2 uc a rx]
    have r: "search_inv ns rs (\<lambda>r. ?P ds r \<or> r = rs ! nat a) s3"
      and c: "closed_set s3 = closed_set s2" by simp_all
    have "search_inv ns rs (?P (ds @ [a])) s3"
      by (rule search_inv_mono[OF r]) auto
    with c I rx relax_ranked[OF inv2 rk2 rx]
    show "\<exists>s'. relax rs u a s2 = Inr s' \<and> ?I (ds @ [a]) s'" by simp
  qed
  then obtain s' where fe: "for_each (out_edges rs (nat u)) (relax rs u) ?s1 = Inr s'"
    and I: "?I (out_edges rs (nat u)) s'" by blast
  from fe have ex: "expand rs u s = Inr s'" by (simp add: expand_def edges)
  from expand_inv[OF mg inv u mn ex] I ex show ?thesis by simp
qed

lemma search_loop_returns:
  assumes mg: "metric_graph ns rs" and inv: "search_inv ns rs (\<lambda>_. True) s" and rk: "ranked s"
    and k: "length ns < k + length (closed_set s)"
  shows "\<exists>b s'. search_loop k rs goal s = Inr (b, s') \<and> ranked s' \<and>
           search_inv ns rs (\<lambda>_. True) s'"
  using inv rk k
proof (induction k arbitrary: s)
  case 0
  with length_closed_le[OF search_invD(2)[OF "0.prems"(1)]] show ?case by simp
next
  case (Suc k)
  show ?case
  proof (cases "open_set s = [] \<or> select s = goal")
    case True
    with Suc.prems show ?thesis by (auto simp: Let_def)
  next
    case False
    then have ne: "open_set s \<noteq> []" and ng: "select s \<noteq> goal" by simp_all
    note sel = select_minimal[OF search_invD(4)[OF Suc.prems(1)] ne]
    from expand_succeeds[OF mg Suc.prems(1,2) sel] obtain s1 where
      e: "expand rs (select s) s = Inr s1" and i1: "search_inv ns rs (\<lambda>_. True) s1"
      and r1: "ranked s1" and c1: "closed_set s1 = select s # closed_set s" by blast
    from Suc.prems(3) c1 have "length ns < k + length (closed_set s1)" by simp
    from Suc.IH[OF i1 r1 this] ne ng e show ?thesis by (simp add: Let_def)
  qed
qed

lemma trace_back_closed:
  assumes inv: "search_inv ns rs P s" and rk: "ranked s"
    and "closed_set s = xs @ v # ys" and "length ys < k"
  shows "\<exists>p. trace_back k (nodes s) v = Inr p"
  using assms(3,4)
proof (induction k arbitrary: xs v ys)
  case 0
  then show ?case by simp
next
  case (Suc k)
  note i = search_invD[OF inv]
  from i(1) have ln: "length (nodes s) = length ns" by (simp add: framed_def)
  from Suc.prems(1) have vc: "v \<in> set (closed_set s)" by simp
  with i(2) ln have vr: "in_range (nodes s) v" by (simp add: sets_ok_def seen_def in_range_def)
  show ?case
  proof (cases "pv s v = - 1")
    case True
    with vr show ?thesis by (simp add: pv_def)
  next
    case False
    from i(5) have "pv s 0 = - 1" by (simp add: tree_def)
    with False have "v \<noteq> 0" by auto
    with rk Suc.prems(1) have "pv s v \<in> set ys" by (simp add: ranked_def)
    then obtain ys1 ys2 where ys: "ys = ys1 @ pv s v # ys2" by (auto simp: in_set_conv_decomp)
    then have "closed_set s = (xs @ v # ys1) @ pv s v # ys2" using Suc.prems(1) by simp
    moreover have "length ys2 < k" using ys Suc.prems(2) by simp
    ultimately obtain p where "trace_back k (nodes s) (pv s v) = Inr p"
      using Suc.IH by blast
    with vr False show ?thesis by (simp add: pv_def)
  qed
qed

lemma trace_back_open:
  assumes inv: "search_inv ns rs P s" and rk: "ranked s" and v: "v \<in> set (open_set s)"
  shows "\<exists>p. trace_back (length ns) (nodes s) v = Inr p"
proof -
  note i = search_invD[OF inv]
  from i(1) have ln: "length (nodes s) = length ns" by (simp add: framed_def)
  from v i(2) ln have vr: "in_range (nodes s) v" by (simp add: sets_ok_def seen_def in_range_def)
  from open_leaves_room[OF i(2) v] obtain k where k: "length ns = Suc k" "length (closed_set s) \<le> k"
    by (cases "length ns") auto
  show ?thesis
  proof (cases "pv s v = - 1")
    case True
    with vr k show ?thesis by (simp add: pv_def)
  next
    case False
    from i(5) have "pv s 0 = - 1" by (simp add: tree_def)
    with False have "v \<noteq> 0" by auto
    with i(5) v have "pv s v \<in> set (closed_set s)" by (auto simp: tree_def seen_def)
    then obtain xs ys where d: "closed_set s = xs @ pv s v # ys" by (auto simp: in_set_conv_decomp)
    then have "length ys < k" using k(2) by simp
    from trace_back_closed[OF inv rk d this] obtain p
      where "trace_back k (nodes s) (pv s v) = Inr p" by blast
    with vr False k(1) show ?thesis by (simp add: pv_def)
  qed
qed

lemma find_path_returns:
  assumes "build_graph hp m ind0 = Inr w" and "sentinel ind0" and "open_cells m \<noteq> []"
  shows "\<exists>found p ns. find_path (stops w) (routes w) (s_len w) = Inr (found, p, ns)"
proof -
  let ?ns = "stops w" and ?rs = "routes w" and ?goal = "s_len w - 1"
  from build_graph_result[OF assms(1)] have gb: "graph_built m ind0 w" .
  have mg: "metric_graph ?ns ?rs" by (rule built_metric[OF gb assms(2)])
  from graph_built_routes(3)[OF gb] assms(3) have n0: "0 < length ?ns" by simp
  then have r0: "in_range ?ns 0" by (simp add: in_range_def)
  from mg n0 obtain h where h: "stop_h (?ns ! 0) = Some h" by (auto simp: metric_graph_def)
  let ?s0 = "\<lparr>nodes = ?ns[0 := (?ns ! 0)\<lparr>stop_g := 0, stop_f := Some h\<rparr>],
              open_set = [0], closed_set = []\<rparr>"
  have inv0: "search_inv ?ns ?rs (\<lambda>_. True) ?s0" by (rule init_inv[OF mg r0 h])
  have rk0: "ranked ?s0" by (simp add: ranked_def)
  have "length ?ns < Suc (length ?ns) + length (closed_set ?s0)" by simp
  from search_loop_returns[OF mg inv0 rk0 this, of ?goal] obtain b s where
    run: "search_loop (Suc (length ?ns)) ?rs ?goal ?s0 = Inr (b, s)" and rk: "ranked s"
    and inv: "search_inv ?ns ?rs (\<lambda>_. True) s" by blast
  show ?thesis
  proof (cases b)
    case False
    with run r0 h show ?thesis by (auto simp add: find_path_def Let_def simp del: search_loop.simps)
  next
    case True
    with run have "search_loop (Suc (length ?ns)) ?rs ?goal ?s0 = Inr (True, s)" by simp
    from search_loop_inv[OF mg inv0 this] have "open_set s \<noteq> []" "select s = ?goal" by simp_all
    with select_minimal(1)[OF search_invD(4)[OF inv]] have "?goal \<in> set (open_set s)" by simp
    from trace_back_open[OF inv rk this] obtain p
      where "trace_back (length ?ns) (nodes s) ?goal = Inr p" by blast
    with True run r0 h show ?thesis by (auto simp add: find_path_def Let_def simp del: search_loop.simps)
  qed
qed

lemma find_path_empty: "find_path [] rs 0 = Inl Out_Of_Range"
  by (simp add: find_path_def in_range_def)

section \<open>The claims\<close>

text \<open>
  Claim C1. For every grid on which \<^verbatim>\<open>find_path\<close> reports success (on the graph built
  from it, \<^verbatim>\<open>ind\<close> negative beforehand), the path it returns is, read backwards, the
  node sequence of a chain of edges of the edge table from node 0 to the last node; the
  cost \<open>g\<close> of the last node is the sum of the weights of these edges, and no chain of
  edges from node 0 to the last node has a smaller sum. \<^verbatim>\<open>find_path\<close> is the function
  modelled from the specification, over real arithmetic. On every graph built from a
  grid with an open interior cell it returns, with success or with failure
  (\<open>find_path_returns\<close>): neither step limit of the model is ever reached.
\<close>

theorem found_path_is_shortest:
  assumes "build_graph hp m ind0 = Inr w" and "sentinel ind0"
    and "find_path (stops w) (routes w) (s_len w) = Inr (True, p, ns)"
  shows "\<exists>es. walk (routes w) 0 es (s_len w - 1) \<and>
           rev p = map route_x es @ [s_len w - 1] \<and>
           stop_g (ns ! nat (s_len w - 1)) = sum_list (map route_d es) \<and>
           (\<forall>es'. walk (routes w) 0 es' (s_len w - 1) \<longrightarrow>
                  stop_g (ns ! nat (s_len w - 1)) \<le> sum_list (map route_d es'))"
proof -
  let ?rs = "routes w" and ?goal = "s_len w - 1"
  from build_graph_result[OF assms(1)] have gb: "graph_built m ind0 w" .
  have mg: "metric_graph (stops w) ?rs" by (rule built_metric[OF gb assms(2)])
  from assms(3) obtain h s where r0: "in_range (stops w) 0" and h: "stop_h (stops w ! 0) = Some h"
    and run: "search_loop (Suc (length (stops w))) ?rs ?goal
       \<lparr>nodes = (stops w)[0 := (stops w ! 0)\<lparr>stop_g := 0, stop_f := Some h\<rparr>],
        open_set = [0], closed_set = []\<rparr> = Inr (True, s)"
    and tb: "trace_back (length (stops w)) (nodes s) ?goal = Inr p" and ns: "ns = nodes s"
    by (rule find_path_success)
  from search_loop_inv[OF mg init_inv[OF mg r0 h] run]
  have inv: "search_inv (stops w) ?rs (\<lambda>_. True) s" and ne: "open_set s \<noteq> []"
    and sel: "select s = ?goal" by simp_all
  note i = search_invD[OF inv]
  note m = select_minimal[OF i(4) ne, unfolded sel]
  from m(1) have gs: "?goal \<in> seen s" by (simp add: seen_def)
  from trace_back_walk[OF i(5) i(2) gs tb]
  obtain es where es: "walk ?rs 0 es ?goal" "cost es = gv s ?goal" "rev p = map route_x es @ [?goal]"
    by blast
  have opt: "gv s ?goal \<le> cost es'" if "walk ?rs 0 es' ?goal" for es'
    using selected_is_optimal[OF mg inv m(1) m(2) that] .
  have g: "stop_g (ns ! nat ?goal) = gv s ?goal" by (simp add: ns gv_def)
  from es opt show ?thesis
    unfolding g by (intro exI[of _ es]) (simp add: cost_def)
qed

theorem found_path_is_shortest_witness:
  "sentinel unset_lookup \<and>
   (\<exists>w ns es. build_graph (memory_for 6) two_cell_grid unset_lookup = Inr w \<and>
      find_path (stops w) (routes w) (s_len w) = Inr (True, [1, 0], ns) \<and>
      walk (routes w) 0 es (s_len w - 1) \<and> rev [1, 0] = map route_x es @ [s_len w - 1] \<and>
      stop_g (ns ! nat (s_len w - 1)) = sum_list (map route_d es) \<and>
      stop_g (ns ! nat (s_len w - 1)) = 1)"
proof -
  from find_two_cell obtain w ns where
    w: "build_graph (memory_for 6) two_cell_grid unset_lookup = Inr w"
    and f: "find_path (stops w) (routes w) (s_len w) = Inr (True, [1, 0], ns)"
    and g: "stop_g (ns ! 1) = 1" by blast
  from build_graph_result[OF w] have "s_len w = 2"
    by (simp add: graph_built_def Let_def open_cells_def interior_cells is_open_def two_cell_grid_def)
  then have n: "nat (s_len w - 1) = 1" by simp
  from found_path_is_shortest[OF w sentinel_unset f] obtain es where
    "walk (routes w) 0 es (s_len w - 1)" "rev [1, 0] = map route_x es @ [s_len w - 1]"
    "stop_g (ns ! nat (s_len w - 1)) = sum_list (map route_d es)" by blast
  with w f g n sentinel_unset show ?thesis by (metis (no_types, lifting))
qed

text \<open>
  Claim C2: on success the sequence of node indices of the path reaches \<^verbatim>\<open>main\<close>
  through the parameter \<^verbatim>\<open>path\<close>, so that \<^verbatim>\<open>main\<close> can index
  \<^verbatim>\<open>stops[path[i]]\<close>. The code misses it: \<^verbatim>\<open>path\<close> is an \<^verbatim>\<open>int *\<close> passed by value
  and \<^verbatim>\<open>main\<close> passes its null pointer, where \<^verbatim>\<open>stops\<close>, \<^verbatim>\<open>routes\<close> and \<^verbatim>\<open>p_len\<close>
  go by address. On the grid with the single open cell (1, 1) the search succeeds with
  a path of one node, and the loop of \<^verbatim>\<open>main\<close> reads \<^verbatim>\<open>path[0]\<close> through the null
  pointer. The lemma \<open>main_path_null\<close> shows the same for every \<^verbatim>\<open>find_path\<close> that
  reports success with \<open>p_len \<ge> 1\<close>.
\<close>

theorem main_reads_null_path:
  "main_c find_path_c (memory_for 1) one_cell_grid unset_lookup = Inl Null_Deref"
  by (simp add: run_builders run_search memory_for_def one_cell_grid_def unset_lookup_def)

text \<open>
  Claim C3. On a grid with at least one open interior cell, after \<^verbatim>\<open>init_stops\<close>
  the node count \<open>s_len\<close> is the number of open interior cells, node \<open>i\<close> carries the
  coordinates of the \<open>(i+1)\<close>-th open interior cell of the row-major scan, node 0 those
  of the first and node \<open>s_len - 1\<close> those of the last such cell.
\<close>

theorem init_stops_nodes:
  assumes "init_stops hp m (main_init ind0) = Inr w" and "open_cells m \<noteq> []"
  shows "s_len w = int (length (open_cells m)) \<and>
         length (stops w) = length (open_cells m) \<and>
         (\<forall>i<length (open_cells m).
            stop_row (stops w ! i) = of_int (fst (open_cells m ! i)) \<and>
            stop_col (stops w ! i) = of_int (snd (open_cells m ! i))) \<and>
         stop_row (stops w ! 0) = of_int (fst (hd (open_cells m))) \<and>
         stop_col (stops w ! 0) = of_int (snd (hd (open_cells m))) \<and>
         stop_row (stops w ! nat (s_len w - 1)) = of_int (fst (last (open_cells m))) \<and>
         stop_col (stops w ! nat (s_len w - 1)) = of_int (snd (last (open_cells m)))"
proof -
  from init_stops_result[OF assms(1)]
  have st: "stops w = map (node_of m) (open_cells m)" and len: "s_len w = int (length (open_cells m))"
    by (simp_all add: stops_built_def)
  have "nat (s_len w - 1) = length (open_cells m) - 1" by (simp add: len)
  with assms(2) show ?thesis
    by (simp add: st len hd_conv_nth last_conv_nth)
qed

theorem init_stops_nodes_witness:
  "open_cells sample_grid \<noteq> [] \<and>
   (\<exists>w. init_stops (\<lambda>_. True) sample_grid (main_init (\<lambda>_ _. - 1)) = Inr w \<and>
        s_len w = 4 \<and> length (stops w) = 4 \<and>
        stop_row (stops w ! 0) = 1 \<and> stop_col (stops w ! 0) = 1 \<and>
        stop_row (stops w ! 2) = 2 \<and> stop_col (stops w ! 2) = 2 \<and>
        stop_row (stops w ! 3) = 4 \<and> stop_col (stops w ! 3) = 4)"
proof -
  obtain w where w: "init_stops (\<lambda>_. True) sample_grid (main_init (\<lambda>_ _. - 1)) = Inr w"
    using init_stops_succeeds[of "\<lambda>_. True" sample_grid "\<lambda>_ _. - 1"] by auto
  have ne: "open_cells sample_grid \<noteq> []" by (simp add: open_cells_sample)
  from init_stops_nodes[OF w ne] w ne show ?thesis
    by (auto simp: open_cells_sample)
qed

text \<open>
  Claim C4. For every ordered pair of distinct open interior cells \<open>a\<close>, \<open>b\<close> that are
  8-adjacent, the edge table built by \<^verbatim>\<open>init_routes\<close> holds an edge from the node of
  \<open>a\<close> to the node of \<open>b\<close> (so one in each direction), whose weight is the Euclidean
  distance of the two nodes' coordinates: 1 when the cells share a row or a column,
  \<open>sqrt 2\<close> when they are diagonal.
\<close>

theorem adjacent_cells_linked:
  assumes "build_graph hp m ind0 = Inr w"
    and "a \<in> set (open_cells m)" and "b \<in> set (open_cells m)" and "a \<noteq> b"
    and "\<bar>fst a - fst b\<bar> \<le> 1" and "\<bar>snd a - snd b\<bar> \<le> 1"
  shows "\<exists>t<length (routes w).
           r_len w = int (length (routes w)) \<and>
           route_x (routes w ! t) = ind w (fst a) (snd a) \<and>
           route_y (routes w ! t) = ind w (fst b) (snd b) \<and>
           in_range (stops w) (ind w (fst a) (snd a)) \<and>
           in_range (stops w) (ind w (fst b) (snd b)) \<and>
           stop_row (stops w ! nat (ind w (fst a) (snd a))) = of_int (fst a) \<and>
           stop_col (stops w ! nat (ind w (fst a) (snd a))) = of_int (snd a) \<and>
           stop_row (stops w ! nat (ind w (fst b) (snd b))) = of_int (fst b) \<and>
           stop_col (stops w ! nat (ind w (fst b) (snd b))) = of_int (snd b) \<and>
           route_d (routes w ! t) =
             sqrt ((of_int (fst b) - of_int (fst a))\<^sup>2 + (of_int (snd b) - of_int (snd a))\<^sup>2) \<and>
           route_d (routes w ! t) = (if fst a = fst b \<or> snd a = snd b then 1 else sqrt 2)"
proof -
  let ?os = "open_cells m" and ?ix = "ind w"
  let ?ps = "filter (linked ?ix) (visits ?ix interior)"
  from build_graph_result[OF assms(1)] have gb: "graph_built m ind0 w" .
  note ix = graph_built_indexes[OF gb]
  from indexes_open[OF ix assms(2)] obtain ta
    where ta: "ta < length ?os" "?os ! ta = a" "?ix (fst a) (snd a) = int ta" by blast
  from indexes_open[OF ix assms(3)] obtain tb
    where tb: "tb < length ?os" "?os ! tb = b" "?ix (fst b) (snd b) = int tb" by blast
  have "a \<in> set interior" using assms(2) by (simp add: set_open_cells)
  moreover have "b \<in> set (nbrs a)" using assms(5,6) by (simp add: set_nbrs abs_minus_commute)
  ultimately have "(a, b) \<in> set ?ps"
    using ta(3) tb(3) assms(4) by (simp add: set_visits linked_def)
  then obtain t where t: "t < length ?ps" "?ps ! t = (a, b)"
    by (metis in_set_conv_nth)
  have rt: "routes w ! t = mk_route (map (node_of m) ?os) ?ix (a, b)"
    using t by (simp add: graph_built_routes(1)[OF gb])
  have len: "t < length (routes w)" using t(1) by (simp add: graph_built_routes(1)[OF gb])
  have sa: "stops w ! ta = (node_of m a)\<lparr>stop_n := out_edges (routes w) ta,
                                stop_n_len := int (length (out_edges (routes w) ta))\<rparr>"
    using graph_built_stop[OF gb ta(1)] ta(2) by simp
  have sb: "stops w ! tb = (node_of m b)\<lparr>stop_n := out_edges (routes w) tb,
                                stop_n_len := int (length (out_edges (routes w) tb))\<rparr>"
    using graph_built_stop[OF gb tb(1)] tb(2) by simp
  have d: "route_d (routes w ! t) =
             sqrt ((of_int (fst b) - of_int (fst a))\<^sup>2 + (of_int (snd b) - of_int (snd a))\<^sup>2)"
    using ta tb by (simp add: rt mk_route_def euclid_def)
  have d1: "route_d (routes w ! t) = (if fst a = fst b \<or> snd a = snd b then 1 else sqrt 2)"
    unfolding d using unit_step_distance[of "fst a" "fst b" "snd a" "snd b"] assms(4,5,6)
    by (simp add: prod_eq_iff)
  have "in_range (stops w) (?ix (fst a) (snd a))" "in_range (stops w) (?ix (fst b) (snd b))"
    using ta tb graph_built_routes(3)[OF gb] by (simp_all add: in_range_def)
  moreover have "route_x (routes w ! t) = ?ix (fst a) (snd a)" "route_y (routes w ! t) = ?ix (fst b) (snd b)"
    by (simp_all add: rt mk_route_def)
  moreover have "stop_row (stops w ! nat (?ix (fst a) (snd a))) = of_int (fst a)"
    "stop_col (stops w ! nat (?ix (fst a) (snd a))) = of_int (snd a)"
    "stop_row (stops w ! nat (?ix (fst b) (snd b))) = of_int (fst b)"
    "stop_col (stops w ! nat (?ix (fst b) (snd b))) = of_int (snd b)"
    by (simp_all add: ta(3) tb(3) sa sb)
  ultimately show ?thesis using len d d1 graph_built_routes(2)[OF gb] by blast
qed

theorem adjacent_cells_linked_witness:
  "\<exists>w. build_graph (\<lambda>_. True) sample_grid (\<lambda>_ _. - 1) = Inr w \<and>
     (\<exists>t<length (routes w).
        route_x (routes w ! t) = ind w 1 1 \<and> route_y (routes w ! t) = ind w 2 2 \<and>
        route_d (routes w ! t) = sqrt 2) \<and>
     (\<exists>t<length (routes w).
        route_x (routes w ! t) = ind w 2 2 \<and> route_y (routes w ! t) = ind w 1 2 \<and>
        route_d (routes w ! t) = 1)"
proof -
  obtain w where w: "build_graph (\<lambda>_. True) sample_grid (\<lambda>_ _. - 1) = Inr w"
    using build_graph_succeeds[of "\<lambda>_. True" "\<lambda>_ _. - 1" sample_grid] sentinel_minus_one by auto
  have "\<exists>t<length (routes w).
        route_x (routes w ! t) = ind w 1 1 \<and> route_y (routes w ! t) = ind w 2 2 \<and>
        route_d (routes w ! t) = sqrt 2"
    using adjacent_cells_linked[OF w, of "(1, 1)" "(2, 2)"]
    by (simp add: open_cells_sample) blast
  moreover have "\<exists>t<length (routes w).
        route_x (routes w ! t) = ind w 2 2 \<and> route_y (routes w ! t) = ind w 1 2 \<and>
        route_d (routes w ! t) = 1"
    using adjacent_cells_linked[OF w, of "(2, 2)" "(1, 2)"]
    by (simp add: open_cells_sample) blast
  ultimately show ?thesis using w by blast
qed

text \<open>
  Claim C5. After \<^verbatim>\<open>init_stops\<close> on a grid with at least one open interior cell, the
  heuristic \<open>h\<close> of every node is the Euclidean distance from its coordinates to those
  of the last node of the table, and \<^verbatim>\<open>init_routes\<close> leaves every \<open>h\<close> (and every
  coordinate) as it was. The first loop of \<^verbatim>\<open>init_stops\<close> creates all the nodes and
  assigns no \<open>h\<close>: the heuristic is written by the second loop only.
\<close>

theorem heuristic_is_distance_to_goal:
  assumes "init_stops hp m (main_init ind0) = Inr w1" and "open_cells m \<noteq> []"
  shows "(\<forall>i<length (stops w1).
            stop_h (stops w1 ! i) =
              Some (sqrt ((stop_row (last (stops w1)) - stop_row (stops w1 ! i))\<^sup>2 +
                          (stop_col (last (stops w1)) - stop_col (stops w1 ! i))\<^sup>2))) \<and>
         (\<forall>hp' w. init_routes hp' w1 = Inr w \<longrightarrow>
            length (stops w) = length (stops w1) \<and>
            (\<forall>i<length (stops w1).
               stop_h (stops w ! i) = stop_h (stops w1 ! i) \<and>
               stop_row (stops w ! i) = stop_row (stops w1 ! i) \<and>
               stop_col (stops w ! i) = stop_col (stops w1 ! i))) \<and>
         (\<forall>w0. for_each [1..MAP_SIZE_ROWS - 2]
                  (\<lambda>i. for_each [1..MAP_SIZE_COLS - 2] (\<lambda>j. add_stop hp m i j))
                  ((main_init ind0)\<lparr>s_len := 0\<rparr>) = Inr w0 \<longrightarrow>
            length (stops w0) = length (stops w1) \<and>
            (\<forall>i<length (stops w0). stop_h (stops w0 ! i) = None))"
proof -
  from init_stops_result[OF assms(1)] have "length (stops w1) = length (open_cells m)"
    by (simp add: stops_built_def)
  with heuristic_after_build[OF assms] first_pass_leaves_h[of hp m ind0] show ?thesis
    by simp
qed

theorem heuristic_is_distance_to_goal_witness:
  "open_cells sample_grid \<noteq> [] \<and>
   (\<exists>w1. init_stops (\<lambda>_. True) sample_grid (main_init (\<lambda>_ _. - 1)) = Inr w1 \<and>
      length (stops w1) = 4 \<and>
      stop_h (stops w1 ! 0) = Some (sqrt 18) \<and>
      stop_h (stops w1 ! 2) = Some (sqrt 8) \<and> stop_h (stops w1 ! 3) = Some 0)"
proof -
  obtain w where w: "init_stops (\<lambda>_. True) sample_grid (main_init (\<lambda>_ _. - 1)) = Inr w"
    using init_stops_succeeds[of "\<lambda>_. True" sample_grid "\<lambda>_ _. - 1"] by auto
  have ne: "open_cells sample_grid \<noteq> []" by (simp add: open_cells_sample)
  from init_stops_result[OF w]
  have st: "stops w = map (node_of sample_grid) (open_cells sample_grid)" by (simp add: stops_built_def)
  have l: "length (stops w) = 4" "last (stops w) = stops w ! 3" by (simp_all add: st open_cells_sample)
  have rc: "stop_row (stops w ! 0) = 1" "stop_col (stops w ! 0) = 1"
    "stop_row (stops w ! 2) = 2" "stop_col (stops w ! 2) = 2"
    "stop_row (stops w ! 3) = 4" "stop_col (stops w ! 3) = 4"
    by (simp_all add: st open_cells_sample)
  from heuristic_is_distance_to_goal[OF w ne]
  have h: "\<And>i. i < 4 \<Longrightarrow> stop_h (stops w ! i) =
              Some (sqrt ((stop_row (stops w ! 3) - stop_row (stops w ! i))\<^sup>2 +
                          (stop_col (stops w ! 3) - stop_col (stops w ! i))\<^sup>2))"
    by (simp add: l)
  have "stop_h (stops w ! 0) = Some (sqrt 18)"
    "stop_h (stops w ! 2) = Some (sqrt 8)" "stop_h (stops w ! 3) = Some 0"
    using h[of 0] h[of 2] h[of 3] by (simp_all add: rc)
  with w ne l show ?thesis by blast
qed

text \<open>
  Claim C6. After graph construction, given that the table \<^verbatim>\<open>ind\<close> held a negative
  value in each of its 10 x 10 entries beforehand (the builders never write one), \<open>ind\<close>
  maps each open interior cell to the index of its node and every other coordinate,
  blocked or on the border, to a negative value, which is no index of the node table;
  every edge of the edge table joins the nodes of two distinct 8-adjacent open interior
  cells.
\<close>

theorem lookup_and_edges:
  assumes "build_graph hp m ind0 = Inr w" and "sentinel ind0"
  shows "(\<forall>t<length (open_cells m).
            ind w (fst (open_cells m ! t)) (snd (open_cells m ! t)) = int t \<and>
            in_range (stops w) (int t) \<and>
            stop_row (stops w ! t) = of_int (fst (open_cells m ! t)) \<and>
            stop_col (stops w ! t) = of_int (snd (open_cells m ! t))) \<and>
         (\<forall>i\<in>{0..MAP_SIZE_ROWS - 1}. \<forall>j\<in>{0..MAP_SIZE_COLS - 1}.
            (i, j) \<notin> set (open_cells m) \<longrightarrow>
              ind w i j < 0 \<and> \<not> in_range (stops w) (ind w i j)) \<and>
         (\<forall>t<length (routes w). \<exists>a b.
            a \<in> set (open_cells m) \<and> b \<in> set (open_cells m) \<and> a \<noteq> b \<and>
            \<bar>fst a - fst b\<bar> \<le> 1 \<and> \<bar>snd a - snd b\<bar> \<le> 1 \<and>
            route_x (routes w ! t) = ind w (fst a) (snd a) \<and>
            route_y (routes w ! t) = ind w (fst b) (snd b))"
proof (intro conjI allI impI ballI)
  let ?os = "open_cells m" and ?ix = "ind w"
  let ?ps = "filter (linked ?ix) (visits ?ix interior)"
  from build_graph_result[OF assms(1)] have gb: "graph_built m ind0 w" .
  note ix = graph_built_indexes[OF gb]
  {
    fix t assume t: "t < length ?os"
    show "?ix (fst (?os ! t)) (snd (?os ! t)) = int t"
      using ix t by (simp add: indexes_def)
    show "in_range (stops w) (int t)"
      using t graph_built_routes(3)[OF gb] by (simp add: in_range_def)
    show "stop_row (stops w ! t) = of_int (fst (?os ! t))"
      "stop_col (stops w ! t) = of_int (snd (?os ! t))"
      by (simp_all add: graph_built_stop[OF gb t])
  }
  {
    fix i j assume ij: "i \<in> {0..MAP_SIZE_ROWS - 1}" "j \<in> {0..MAP_SIZE_COLS - 1}"
      "(i, j) \<notin> set ?os"
    from ix ij(3) have "?ix i j = ind0 i j" by (auto simp: indexes_def)
    with assms(2) ij(1,2) show neg: "?ix i j < 0" by (simp add: sentinel_def)
    then show "\<not> in_range (stops w) (?ix i j)" by (simp add: in_range_def)
  }
  fix t assume t: "t < length (routes w)"
  then have tp: "t < length ?ps" by (simp add: graph_built_routes(1)[OF gb])
  let ?a = "fst (?ps ! t)" and ?b = "snd (?ps ! t)"
  from tp have mem: "?ps ! t \<in> set ?ps" by (rule nth_mem)
  then have v: "?a \<in> set interior" "?ix (fst ?a) (snd ?a) \<ge> 0" "?b \<in> set (nbrs ?a)"
    and lk: "?b \<noteq> ?a" "?ix (fst ?b) (snd ?b) \<ge> 0"
    by (simp_all add: set_visits linked_def)
  from v(1) have ab: "1 \<le> fst ?a" "fst ?a \<le> MAP_SIZE_ROWS - 2" "1 \<le> snd ?a" "snd ?a \<le> MAP_SIZE_COLS - 2"
    by (simp_all add: set_interior)
  from v(3) have bb: "\<bar>fst ?b - fst ?a\<bar> \<le> 1" "\<bar>snd ?b - snd ?a\<bar> \<le> 1" by (simp_all add: set_nbrs)
  have ao: "?a \<in> set ?os"
    by (rule indexes_nonneg[OF ix assms(2)]) (use ab v(2) in auto)
  have bo: "?b \<in> set ?os"
    by (rule indexes_nonneg[OF ix assms(2)]) (use ab bb lk(2) in auto)
  have "routes w ! t = mk_route (map (node_of m) ?os) ?ix (?ps ! t)"
    using tp by (simp add: graph_built_routes(1)[OF gb])
  then have "route_x (routes w ! t) = ?ix (fst ?a) (snd ?a)" "route_y (routes w ! t) = ?ix (fst ?b) (snd ?b)"
    by (simp_all add: mk_route_def)
  with ao bo lk(1) bb
  show "\<exists>a b. a \<in> set ?os \<and> b \<in> set ?os \<and> a \<noteq> b \<and>
            \<bar>fst a - fst b\<bar> \<le> 1 \<and> \<bar>snd a - snd b\<bar> \<le> 1 \<and>
            route_x (routes w ! t) = ?ix (fst a) (snd a) \<and>
            route_y (routes w ! t) = ?ix (fst b) (snd b)"
    by (intro exI[of _ ?a] exI[of _ ?b]) (simp add: abs_minus_commute)
qed

theorem lookup_and_edges_witness:
  "sentinel (\<lambda>_ _. - 1) \<and>
   (\<exists>w. build_graph (\<lambda>_. True) sample_grid (\<lambda>_ _. - 1) = Inr w \<and>
      ind w 1 1 = 0 \<and> ind w 4 4 = 3 \<and> ind w 0 0 < 0 \<and> ind w 3 3 < 0 \<and> ind w 9 9 < 0)"
proof -
  obtain w where w: "build_graph (\<lambda>_. True) sample_grid (\<lambda>_ _. - 1) = Inr w"
    using build_graph_succeeds[of "\<lambda>_. True" "\<lambda>_ _. - 1" sample_grid] sentinel_minus_one by auto
  note le = lookup_and_edges[OF w sentinel_minus_one]
  from le have a: "\<And>t. t < 4 \<Longrightarrow>
      ind w (fst (open_cells sample_grid ! t)) (snd (open_cells sample_grid ! t)) = int t"
    by (simp add: open_cells_sample)
  from le have b: "\<And>i j. 0 \<le> i \<Longrightarrow> i \<le> 9 \<Longrightarrow> 0 \<le> j \<Longrightarrow> j \<le> 9 \<Longrightarrow>
      (i, j) \<notin> set (open_cells sample_grid) \<Longrightarrow> ind w i j < 0"
    by (simp add: MAP_SIZE_ROWS_def MAP_SIZE_COLS_def)
  have "ind w 1 1 = 0" "ind w 4 4 = 3" using a[of 0] a[of 3] by (simp_all add: open_cells_sample)
  moreover have "ind w 0 0 < 0" "ind w 3 3 < 0" "ind w 9 9 < 0"
    using b[of 0 0] b[of 3 3] b[of 9 9] by (simp_all add: open_cells_sample)
  ultimately show ?thesis using w sentinel_minus_one by blast
qed

text \<open>
  Claim C7 as stated: a grid with no open interior cell is detected and reported to the
  caller as a result of its own. It is not: on the all-blocked grid graph construction
  returns normally and leaves the variables of \<^verbatim>\<open>main\<close> as they were initialised,
  with \<open>s_len = 0\<close> and a null node table.
\<close>

theorem degenerate_grid_counterexample:
  "build_graph no_memory blocked_grid unset_lookup = Inr (main_init unset_lookup) \<and>
   s_len (main_init unset_lookup) = 0 \<and> stops (main_init unset_lookup) = []"
  using degenerate_build[OF open_cells_blocked sentinel_unset] by (simp add: main_init_def)

text \<open>
  Claim C7, amended. For every grid with no open interior cell (and \<^verbatim>\<open>ind\<close> negative
  beforehand), \<^verbatim>\<open>init_stops\<close> and \<^verbatim>\<open>init_routes\<close> return normally whatever the
  allocator does, calling \<^verbatim>\<open>realloc\<close> never and indexing neither table: the node and
  edge tables stay null and \<open>s_len = r_len = 0\<close>. Nothing is reported; \<^verbatim>\<open>main\<close> does not
  test \<open>s_len\<close> and calls \<^verbatim>\<open>find_path\<close> on the empty tables, and what it prints is
  decided by the result of that call alone.
\<close>

theorem degenerate_grid_unreported:
  assumes "open_cells m = []" and "sentinel ind0"
  shows "build_graph hp m ind0 = Inr (main_init ind0) \<and>
         stops (main_init ind0) = [] \<and> s_len (main_init ind0) = 0 \<and>
         routes (main_init ind0) = [] \<and> r_len (main_init ind0) = 0 \<and>
         allocs (main_init ind0) = 0 \<and>
         main_c fp hp m ind0 = main_report None (fp [] [] 0 None 0)"
  using degenerate_build[OF assms, of hp]
  by (simp add: main_c_def) (simp add: main_init_def)

theorem degenerate_grid_unreported_witness:
  "open_cells blocked_grid = [] \<and> sentinel unset_lookup \<and>
   build_graph no_memory blocked_grid unset_lookup = Inr (main_init unset_lookup) \<and>
   main_c gives_up no_memory blocked_grid unset_lookup = Inr Impossible"
  using degenerate_grid_unreported[OF open_cells_blocked sentinel_unset, of no_memory gives_up]
    open_cells_blocked sentinel_unset
  by (simp add: main_report_def gives_up_def)

text \<open>
  Claim C8 as stated: an allocation failure while \<^verbatim>\<open>init_stops\<close> or \<^verbatim>\<open>init_routes\<close>
  grows a table comes back to the caller as a fatal error result. It does not: both
  functions return \<^verbatim>\<open>void\<close> and test no result of \<^verbatim>\<open>realloc\<close>. With no memory at all
  the first node is written through the null pointer; with memory for the four nodes of
  \<open>sample_grid\<close> only, the first edge is.
\<close>

theorem allocation_failure_counterexample:
  "init_stops no_memory one_cell_grid (main_init unset_lookup) = Inl Null_Deref \<and>
   build_graph (memory_for 4) sample_grid unset_lookup = Inl Null_Deref"
  by (simp add: run_builders no_memory_def memory_for_def one_cell_grid_def sample_grid_def
      unset_lookup_def)

text \<open>
  Claim C8, amended. With \<^verbatim>\<open>ind\<close> negative beforehand: when every call of
  \<^verbatim>\<open>realloc\<close> succeeds, graph construction returns normally; when it returns, every
  call it made had succeeded (one per node, two per edge); and when it does not return,
  a call failed and the run ended in a write through the null pointer, which is undefined
  behaviour and no result handed to the caller.
\<close>

theorem allocation_failure_is_undefined:
  assumes "sentinel ind0"
  shows "((\<forall>k. hp k) \<longrightarrow> (\<exists>w. build_graph hp m ind0 = Inr w)) \<and>
         (\<forall>w. build_graph hp m ind0 = Inr w \<longrightarrow>
            (\<forall>k<allocs w. hp k) \<and> allocs w = length (stops w) + 2 * length (routes w)) \<and>
         (\<forall>e. build_graph hp m ind0 = Inl e \<longrightarrow> e = Null_Deref \<and> (\<exists>k. \<not> hp k))"
proof -
  have a: "\<exists>w. build_graph hp m ind0 = Inr w" if "\<forall>k. hp k"
    using build_graph_succeeds[OF that assms] .
  have b: "(\<forall>k<allocs w. hp k) \<and> allocs w = length (stops w) + 2 * length (routes w)"
    if w: "build_graph hp m ind0 = Inr w" for w
  proof
    from build_graph_granted[OF w] show "\<forall>k<allocs w. hp k" by (simp add: granted_def)
    from build_graph_result[OF w] show "allocs w = length (stops w) + 2 * length (routes w)"
      by (simp add: graph_built_def Let_def)
  qed
  have c: "e = Null_Deref \<and> (\<exists>k. \<not> hp k)" if e: "build_graph hp m ind0 = Inl e" for e
    using build_graph_error[OF e assms] .
  from a b c show ?thesis by blast
qed

theorem allocation_failure_is_undefined_witness:
  "sentinel unset_lookup \<and>
   (\<exists>w. build_graph (memory_for 16) sample_grid unset_lookup = Inr w \<and> allocs w = 16) \<and>
   (\<exists>k. \<not> memory_for 4 k)"
proof -
  note t = allocation_failure_is_undefined[OF sentinel_unset]
  have r: "\<exists>w. build_graph (memory_for 16) sample_grid unset_lookup = Inr w \<and>
      length (stops w) = 4 \<and> length (routes w) = 6"
    by (simp add: run_builders memory_for_def sample_grid_def unset_lookup_def)
  then obtain w where w: "build_graph (memory_for 16) sample_grid unset_lookup = Inr w"
    "length (stops w) = 4" "length (routes w) = 6" by blast
  from t[of "memory_for 16" sample_grid] w have "allocs w = 16" by simp
  moreover have "\<not> memory_for 4 4" by (simp add: memory_for_def)
  then have "\<exists>k. \<not> memory_for 4 k" by blast
  ultimately show ?thesis using w(1) sentinel_unset by blast
qed

text \<open>
  Claim C9. After graph construction, before any search, every node (node 0 included)
  has \<open>g = DBL_MAX\<close> and predecessor \<open>from = -1\<close>.
\<close>

theorem search_state_initial:
  assumes "build_graph hp m ind0 = Inr w"
  shows "length (stops w) = length (open_cells m) \<and>
         (\<forall>i<length (stops w). stop_g (stops w ! i) = DBL_MAX \<and> stop_from (stops w ! i) = - 1)"
proof -
  from build_graph_result[OF assms] have "graph_built m ind0 w" .
  then show ?thesis by (simp add: graph_built_def Let_def)
qed

theorem search_state_initial_witness:
  "\<exists>w. build_graph (\<lambda>_. True) sample_grid (\<lambda>_ _. - 1) = Inr w \<and> length (stops w) = 4 \<and>
       stop_g (stops w ! 0) = DBL_MAX \<and> stop_from (stops w ! 0) = - 1 \<and>
       stop_g (stops w ! 3) = DBL_MAX \<and> stop_from (stops w ! 3) = - 1"
proof -
  obtain w where w: "build_graph (\<lambda>_. True) sample_grid (\<lambda>_ _. - 1) = Inr w"
    using build_graph_succeeds[of "\<lambda>_. True" "\<lambda>_ _. - 1" sample_grid] sentinel_minus_one by auto
  from search_state_initial[OF w] w show ?thesis
    by (auto simp: open_cells_sample)
qed

text \<open>
  Claim C10. After \<^verbatim>\<open>init_routes\<close>, the outgoing-edge list of node \<open>u\<close> holds exactly
  the indices \<open>t\<close> of the edge-table entries whose source \<open>x\<close> is \<open>u\<close>, each a valid
  index (\<open>0 \<le> t < r_len\<close>), in increasing order; \<open>n_len\<close> is the length of that list,
  and at most 8 when \<^verbatim>\<open>ind\<close> held negative values beforehand.
\<close>

theorem outgoing_edge_lists:
  assumes "build_graph hp m ind0 = Inr w" and "u < length (stops w)"
  shows "stop_n (stops w ! u) =
           map int (filter (\<lambda>t. route_x (routes w ! t) = int u) [0..<length (routes w)]) \<and>
         r_len w = int (length (routes w)) \<and>
         (\<forall>t\<in>set (stop_n (stops w ! u)). 0 \<le> t \<and> t < r_len w) \<and>
         sorted_wrt (<) (stop_n (stops w ! u)) \<and>
         stop_n_len (stops w ! u) = int (length (stop_n (stops w ! u))) \<and>
         (sentinel ind0 \<longrightarrow> stop_n_len (stops w ! u) \<le> 8)"
proof -
  from build_graph_result[OF assms(1)] have gb: "graph_built m ind0 w" .
  from assms(2) have u: "u < length (open_cells m)" by (simp add: graph_built_routes(3)[OF gb])
  note st = graph_built_stop[OF gb u]
  have n: "stop_n (stops w ! u) = out_edges (routes w) u"
    and nl: "stop_n_len (stops w ! u) = int (length (out_edges (routes w) u))"
    by (simp_all add: st)
  have "stop_n_len (stops w ! u) \<le> 8" if sn: "sentinel ind0"
  proof -
    let ?ix = "ind w"
    let ?ps = "filter (linked ?ix) (visits ?ix interior)"
    let ?mk = "mk_route (map (node_of m) (open_cells m)) ?ix"
    have "length (out_edges (routes w) u) = length (filter (\<lambda>r. route_x r = int u) (routes w))"
      unfolding out_edges_def
      using length_filter_nth[of "\<lambda>r. route_x r = int u" "routes w"] by simp
    also have "\<dots> = length (filter (\<lambda>p. ?ix (fst (fst p)) (snd (fst p)) = int u) ?ps)"
      by (subst graph_built_routes(1)[OF gb]) (simp add: filter_map comp_def mk_route_def)
    also have "\<dots> \<le> 8"
      by (rule out_degree[OF graph_built_indexes[OF gb] sn u])
    finally show ?thesis by (simp add: nl)
  qed
  then show ?thesis
    using out_edges_sorted[of "routes w" u] out_edges_range[of _ "routes w" u]
      graph_built_routes(2)[OF gb]
    by (auto simp: n nl out_edges_def)
qed

theorem outgoing_edge_lists_witness:
  "\<exists>w. build_graph (\<lambda>_. True) sample_grid (\<lambda>_ _. - 1) = Inr w \<and> 3 < length (stops w) \<and>
     sentinel (\<lambda>_ _. - 1) \<and>
     stop_n_len (stops w ! 0) = int (length (stop_n (stops w ! 0))) \<and>
     stop_n_len (stops w ! 0) \<le> 8 \<and> sorted_wrt (<) (stop_n (stops w ! 3))"
proof -
  obtain w where w: "build_graph (\<lambda>_. True) sample_grid (\<lambda>_ _. - 1) = Inr w"
    using build_graph_succeeds[of "\<lambda>_. True" "\<lambda>_ _. - 1" sample_grid] sentinel_minus_one by auto
  from build_graph_result[OF w] have "length (stops w) = 4"
    by (simp add: graph_built_def Let_def open_cells_sample)
  then have l: "0 < length (stops w)" "3 < length (stops w)" by simp_all
  from outgoing_edge_lists[OF w l(1)] outgoing_edge_lists[OF w l(2)] w l sentinel_minus_one
  show ?thesis by blast
qed

end
